theory Spec2Isabelle
  imports Complex_Main "HOL-Library.Word"
begin

unbundle bit_operations_syntax

section \<open>JavaScript strings\<close>

text \<open>
  A JavaScript string is a sequence of UTF-16 code units; \<open>length\<close>, \<open>substring\<close>,
  \<open>charCodeAt\<close> and a regular expression without the \<open>u\<close> flag all work on code units.
  Every character the plugin's grammar names lies in the Basic Multilingual Plane and is
  one code unit.
\<close>

type_synonym jschar = "16 word"
type_synonym jsstring = "jschar list"

text \<open>
  ECMAScript \<open>WhiteSpace\<close> and \<open>LineTerminator\<close>: what \<open>String.prototype.trim\<close>
  strips and what the class \<open>\s\<close> matches (the same set).
\<close>

definition isLineTerminator :: "jschar \<Rightarrow> bool" where
  "isLineTerminator c \<longleftrightarrow> c \<in> set [0x0A, 0x0D, 0x2028, 0x2029]"

definition isWhiteSpace :: "jschar \<Rightarrow> bool" where
  "isWhiteSpace c \<longleftrightarrow> c \<in> set [0x09, 0x0A, 0x0B, 0x0C, 0x0D, 0x20, 0xA0, 0x1680,
      0x2000, 0x2001, 0x2002, 0x2003, 0x2004, 0x2005, 0x2006, 0x2007, 0x2008, 0x2009, 0x200A,
      0x2028, 0x2029, 0x202F, 0x205F, 0x3000, 0xFEFF]"

definition isDigit :: "jschar \<Rightarrow> bool" where
  "isDigit c \<longleftrightarrow> 0x30 \<le> c \<and> c \<le> 0x39"

definition trim :: "jsstring \<Rightarrow> jsstring" where
  "trim s = rev (dropWhile isWhiteSpace (rev (dropWhile isWhiteSpace s)))"

definition startsWith :: "jsstring \<Rightarrow> jsstring \<Rightarrow> bool" where
  "startsWith s p \<longleftrightarrow> take (length p) s = p"

text \<open>\<open>s.substring(i)\<close> for \<open>0 \<le> i\<close>: an index past the end gives the empty string.\<close>

definition substringFrom :: "jsstring \<Rightarrow> nat \<Rightarrow> jsstring" where
  "substringFrom s i = drop i s"

text \<open>\<open>s.replace(/\s+/g, '')\<close>: every run of white space is deleted.\<close>

definition removeWhiteSpace :: "jsstring \<Rightarrow> jsstring" where
  "removeWhiteSpace s = filter (\<lambda>c. \<not> isWhiteSpace c) s"

text \<open>
  \<open>s.split(sep)\<close> for a one-character separator string: the pieces between the
  separators, the empty string giving one empty piece.
\<close>

fun splitOn :: "jschar \<Rightarrow> jsstring \<Rightarrow> jsstring list" where
  "splitOn sep [] = [[]]"
| "splitOn sep (c # cs) =
     (if c = sep then [] # splitOn sep cs
      else (case splitOn sep cs of [] \<Rightarrow> [[c]] | p # ps \<Rightarrow> (c # p) # ps))"

text \<open>
  \<open>s.split(/\s+/)\<close>: the separator is a maximal run of white space; a string that begins
  or ends with white space gets an empty first or last piece, and the empty string gives
  one empty piece.
\<close>

fun splitWs :: "jsstring \<Rightarrow> jsstring list" where
  "splitWs [] = [[]]"
| "splitWs (c # cs) =
     (if isWhiteSpace c then
        (case cs of
           [] \<Rightarrow> [[], []]
         | d # ds \<Rightarrow> if isWhiteSpace d then splitWs cs else [] # splitWs cs)
      else (case splitWs cs of [] \<Rightarrow> [[c]] | p # ps \<Rightarrow> (c # p) # ps))"

text \<open>\<open>pieces.join(sep)\<close> with a one-character separator.\<close>

fun joinWith :: "jschar \<Rightarrow> jsstring list \<Rightarrow> jsstring" where
  "joinWith sep [] = []"
| "joinWith sep [p] = p"
| "joinWith sep (p # q # ps) = p @ sep # joinWith sep (q # ps)"

text \<open>
  Numbers. The plugin's episode, scene and line numbers are non-negative integers; they
  are modelled as \<open>nat\<close>. A JavaScript number is a double: it holds every integer below
  \<open>2 ^ 53\<close> exactly and prints it in plain decimal, which is what \<open>numToString\<close>
  (template interpolation of a number) and \<open>parseInt10\<close> (\<open>parseInt(s, 10)\<close> on a
  string of decimal digits) compute. From \<open>2 ^ 53\<close> on a double rounds (\<open>parseInt\<close>
  of a longer digit string, \<open>n + 1\<close>) and from \<open>10 ^ 21\<close> on it prints in exponent
  form; there the model does not describe the source, and every property below that
  prints, parses or increments a symbolic number bounds it below \<open>2 ^ 53\<close>.
\<close>

fun numToString :: "nat \<Rightarrow> jsstring" where
  "numToString n =
     (if n < 10 then [of_nat (48 + n)]
      else numToString (n div 10) @ [of_nat (48 + n mod 10)])"

declare numToString.simps [simp del]

definition digitValue :: "jschar \<Rightarrow> nat" where
  "digitValue c = unat c - 48"

definition parseInt10 :: "jsstring \<Rightarrow> nat" where
  "parseInt10 s = foldl (\<lambda>acc c. 10 * acc + digitValue c) 0 s"

section \<open>Regular expressions\<close>

text \<open>
  The plugin's patterns use literals, the classes \<open>\d\<close>, \<open>\s\<close>, \<open>\S\<close>, \<open>.\<close> and a
  bracket class, the quantifiers \<open>*\<close>, \<open>+\<close> and \<open>+?\<close> on a class, sequence, alternation,
  capture groups and the anchors \<open>^\<close> and \<open>$\<close> (no \<open>m\<close> flag: start and end of input).
\<close>

datatype cclass = Digit | Space | NonSpace | Dot | OneOf "jschar list"

fun in_cclass :: "cclass \<Rightarrow> jschar \<Rightarrow> bool" where
  "in_cclass Digit c = isDigit c"
| "in_cclass Space c = isWhiteSpace c"
| "in_cclass NonSpace c = (\<not> isWhiteSpace c)"
| "in_cclass Dot c = (\<not> isLineTerminator c)"
| "in_cclass (OneOf cs) c = (c \<in> set cs)"

datatype regex =
    Bol
  | Eol
  | Lit jsstring
  | Cls cclass
  | Star cclass
  | Plus cclass
  | LazyPlus cclass
  | Seq regex regex
  | Alt regex regex
  | Group nat regex

type_synonym captures = "nat \<rightharpoonup> jsstring"

text \<open>
  A backtracking matcher in continuation-passing style, as ECMAScript specifies it: a
  matcher gets the position, the input from there on and the captures so far, and a
  continuation that matches the rest of the pattern; it returns the first success in
  priority order (a greedy quantifier tries the longest run first, a lazy one the
  shortest, an alternation its left branch first).
\<close>

type_synonym 'r cont = "nat \<Rightarrow> jsstring \<Rightarrow> captures \<Rightarrow> 'r option"

fun matchLit :: "jsstring \<Rightarrow> 'r cont \<Rightarrow> 'r cont" where
  "matchLit [] k i xs cs = k i xs cs"
| "matchLit (c # s) k i [] cs = None"
| "matchLit (c # s) k i (x # xs) cs = (if x = c then matchLit s k (Suc i) xs cs else None)"

fun matchOne :: "(jschar \<Rightarrow> bool) \<Rightarrow> 'r cont \<Rightarrow> 'r cont" where
  "matchOne p k i [] cs = None"
| "matchOne p k i (x # xs) cs = (if p x then k (Suc i) xs cs else None)"

fun matchMany :: "(jschar \<Rightarrow> bool) \<Rightarrow> 'r cont \<Rightarrow> 'r cont" where
  "matchMany p k i [] cs = k i [] cs"
| "matchMany p k i (x # xs) cs =
     (if p x then
        (case matchMany p k (Suc i) xs cs of Some r \<Rightarrow> Some r | None \<Rightarrow> k i (x # xs) cs)
      else k i (x # xs) cs)"

fun matchFew :: "(jschar \<Rightarrow> bool) \<Rightarrow> 'r cont \<Rightarrow> 'r cont" where
  "matchFew p k i [] cs = k i [] cs"
| "matchFew p k i (x # xs) cs =
     (case k i (x # xs) cs of
        Some r \<Rightarrow> Some r
      | None \<Rightarrow> if p x then matchFew p k (Suc i) xs cs else None)"

fun rmatch :: "regex \<Rightarrow> 'r cont \<Rightarrow> 'r cont" where
  "rmatch Bol k = (\<lambda>i xs cs. if i = 0 then k i xs cs else None)"
| "rmatch Eol k = (\<lambda>i xs cs. if xs = [] then k i xs cs else None)"
| "rmatch (Lit s) k = matchLit s k"
| "rmatch (Cls c) k = matchOne (in_cclass c) k"
| "rmatch (Star c) k = matchMany (in_cclass c) k"
| "rmatch (Plus c) k = matchOne (in_cclass c) (matchMany (in_cclass c) k)"
| "rmatch (LazyPlus c) k = matchOne (in_cclass c) (matchFew (in_cclass c) k)"
| "rmatch (Seq a b) k = rmatch a (rmatch b k)"
| "rmatch (Alt a b) k =
     (\<lambda>i xs cs. case rmatch a k i xs cs of Some r \<Rightarrow> Some r | None \<Rightarrow> rmatch b k i xs cs)"
| "rmatch (Group n a) k =
     (\<lambda>i xs cs. rmatch a (\<lambda>j ys cs'. k j ys (cs'(n \<mapsto> take (j - i) xs))) i xs cs)"

text \<open>
  The result of \<open>RegExp.prototype.exec\<close>: where the match starts and ends and what the
  groups captured; \<open>match[0]\<close> is the input between the two indices.
\<close>

record MatchResult =
  m_index :: nat
  m_end :: nat
  m_groups :: captures

text \<open>The continuation at the end of a pattern: the match is complete.\<close>

abbreviation (input) kf :: "nat \<Rightarrow> MatchResult cont" where
  "kf i0 \<equiv> (\<lambda>j ys cs. Some \<lparr>m_index = i0, m_end = j, m_groups = cs\<rparr>)"

definition matchAt :: "regex \<Rightarrow> nat \<Rightarrow> jsstring \<Rightarrow> MatchResult option" where
  "matchAt r i xs = rmatch r (kf i) i xs Map.empty"

text \<open>
  \<open>execFrom r i xs\<close> searches for the leftmost match that starts at index \<open>i\<close> or later,
  \<open>xs\<close> being the input from index \<open>i\<close> on.
\<close>

fun execFrom :: "regex \<Rightarrow> nat \<Rightarrow> jsstring \<Rightarrow> MatchResult option" where
  "execFrom r i [] = matchAt r i []"
| "execFrom r i (x # xs) =
     (case matchAt r i (x # xs) of Some m \<Rightarrow> Some m | None \<Rightarrow> execFrom r (Suc i) xs)"

text \<open>\<open>s.match(r)\<close> for a pattern without the \<open>g\<close> flag, and \<open>r.test(s)\<close>.\<close>

definition jsMatch :: "regex \<Rightarrow> jsstring \<Rightarrow> MatchResult option" where
  "jsMatch r s = execFrom r 0 s"

definition jsTest :: "regex \<Rightarrow> jsstring \<Rightarrow> bool" where
  "jsTest r s \<longleftrightarrow> jsMatch r s \<noteq> None"

definition matched :: "jsstring \<Rightarrow> MatchResult \<Rightarrow> jsstring" where
  "matched s m = take (m_end m - m_index m) (drop (m_index m) s)"

text \<open>
  \<open>match[n]\<close>. A group that took no part in the match is \<open>undefined\<close> in
  JavaScript and the empty string here; every group the plugin reads stands on the one
  path through its pattern and so took part.
\<close>

definition group :: "MatchResult \<Rightarrow> nat \<Rightarrow> jsstring" where
  "group m n = (case m_groups m n of Some g \<Rightarrow> g | None \<Rightarrow> [])"

fun seqs :: "regex list \<Rightarrow> regex" where
  "seqs [] = Lit []"
| "seqs [r] = r"
| "seqs (r # rs) = Seq r (seqs rs)"

fun alts :: "regex list \<Rightarrow> regex" where
  "alts [] = Lit []"
| "alts [r] = r"
| "alts (r # rs) = Alt r (alts rs)"

text \<open>
  Two measures of a pattern that the proofs below use: the least number of code units a
  match consumes, and the set of words the pattern can match (anchors and groups aside).
\<close>

fun minLength :: "regex \<Rightarrow> nat" where
  "minLength Bol = 0"
| "minLength Eol = 0"
| "minLength (Lit s) = length s"
| "minLength (Cls c) = 1"
| "minLength (Star c) = 0"
| "minLength (Plus c) = 1"
| "minLength (LazyPlus c) = 1"
| "minLength (Seq a b) = minLength a + minLength b"
| "minLength (Alt a b) = min (minLength a) (minLength b)"
| "minLength (Group n a) = minLength a"

fun lang :: "regex \<Rightarrow> jsstring set" where
  "lang Bol = {[]}"
| "lang Eol = {[]}"
| "lang (Lit s) = {s}"
| "lang (Cls c) = {w. \<exists>x. w = [x] \<and> in_cclass c x}"
| "lang (Star c) = {w. \<forall>x\<in>set w. in_cclass c x}"
| "lang (Plus c) = {w. w \<noteq> [] \<and> (\<forall>x\<in>set w. in_cclass c x)}"
| "lang (LazyPlus c) = {w. w \<noteq> [] \<and> (\<forall>x\<in>set w. in_cclass c x)}"
| "lang (Seq a b) = {w. \<exists>u v. w = u @ v \<and> u \<in> lang a \<and> v \<in> lang b}"
| "lang (Alt a b) = lang a \<union> lang b"
| "lang (Group n a) = lang a"

section \<open>Constants (utils/constants.ts)\<close>

text \<open>
  The CJK characters and full-width punctuation of the screenplay grammar, by code unit:
  U+65E5 day, U+591C night, U+96E8 rain, U+96EA snow, U+5185 interior, U+5916 exterior,
  U+4EBA person, U+7269 (second character of the word for cast), U+25B3 the white
  triangle that marks an action line, U+FF08 and U+FF09 full-width parentheses, U+FF1A
  full-width colon, U+3010 and U+3011 lenticular brackets, U+6807 U+7B7E tag,
  U+95EA U+56DE flashback, U+7ED3 U+675F end, U+7B2C ordinal prefix, U+96C6 episode.
\<close>

abbreviation ch_day :: jschar where "ch_day \<equiv> 0x65E5"
abbreviation ch_night :: jschar where "ch_night \<equiv> 0x591C"
abbreviation ch_rain :: jschar where "ch_rain \<equiv> 0x96E8"
abbreviation ch_snow :: jschar where "ch_snow \<equiv> 0x96EA"
abbreviation ch_interior :: jschar where "ch_interior \<equiv> 0x5185"
abbreviation ch_exterior :: jschar where "ch_exterior \<equiv> 0x5916"
abbreviation ch_person :: jschar where "ch_person \<equiv> 0x4EBA"
abbreviation ch_thing :: jschar where "ch_thing \<equiv> 0x7269"
abbreviation ch_triangle :: jschar where "ch_triangle \<equiv> 0x25B3"
abbreviation ch_lparen :: jschar where "ch_lparen \<equiv> 0xFF08"
abbreviation ch_rparen :: jschar where "ch_rparen \<equiv> 0xFF09"
abbreviation ch_colon :: jschar where "ch_colon \<equiv> 0xFF1A"
abbreviation ch_lbracket :: jschar where "ch_lbracket \<equiv> 0x3010"
abbreviation ch_rbracket :: jschar where "ch_rbracket \<equiv> 0x3011"
abbreviation ch_ordinal :: jschar where "ch_ordinal \<equiv> 0x7B2C"
abbreviation ch_episode :: jschar where "ch_episode \<equiv> 0x96C6"
abbreviation ch_space :: jschar where "ch_space \<equiv> 0x20"
abbreviation ch_hyphen :: jschar where "ch_hyphen \<equiv> 0x2D"
abbreviation ch_hash :: jschar where "ch_hash \<equiv> 0x23"
abbreviation ch_newline :: jschar where "ch_newline \<equiv> 0x0A"

text \<open>\<^verbatim>\<open>/^(\d+)-(\d+)/\<close>\<close>

definition SCENE_NUMBER_REGEX :: regex where
  "SCENE_NUMBER_REGEX =
     seqs [Bol, Group 1 (Plus Digit), Lit [ch_hyphen], Group 2 (Plus Digit)]"

text \<open>
  \<^verbatim>\<open>/^(\d+)-(\d+)\s+(D|N|RN|SN|\S+)\s+(I|E)\s+(.+)$/\<close> with D, N, RN, SN the
  four time presets day, night, rain-night, snow-night and I, E the two location types.
\<close>

definition SCENE_HEADER_REGEX :: regex where
  "SCENE_HEADER_REGEX =
     seqs [Bol, Group 1 (Plus Digit), Lit [ch_hyphen], Group 2 (Plus Digit), Plus Space,
           Group 3 (alts [Lit [ch_day], Lit [ch_night], Lit [ch_rain, ch_night],
                          Lit [ch_snow, ch_night], Plus NonSpace]),
           Plus Space,
           Group 4 (alts [Lit [ch_interior], Lit [ch_exterior]]),
           Plus Space,
           Group 5 (Plus Dot), Eol]"

text \<open>\<^verbatim>\<open>/^P\s+(.+)$/\<close> with P the person character.\<close>

definition CHARACTER_LIST_REGEX :: regex where
  "CHARACTER_LIST_REGEX = seqs [Bol, Lit [ch_person], Plus Space, Group 1 (Plus Dot), Eol]"

text \<open>\<^verbatim>\<open>/^(.+?)((.+?)):(.+)$/\<close>, the parentheses around the second group and the colon
  being the full-width characters.\<close>

definition DIALOGUE_REGEX :: regex where
  "DIALOGUE_REGEX =
     seqs [Bol, Group 1 (LazyPlus Dot), Lit [ch_lparen], Group 2 (LazyPlus Dot),
           Lit [ch_rparen, ch_colon], Group 3 (Plus Dot), Eol]"

text \<open>\<^verbatim>\<open>/^(.+?):(.+)$/\<close> with the full-width colon.\<close>

definition SIMPLE_DIALOGUE_REGEX :: regex where
  "SIMPLE_DIALOGUE_REGEX =
     seqs [Bol, Group 1 (LazyPlus Dot), Lit [ch_colon], Group 2 (Plus Dot), Eol]"

text \<open>\<^verbatim>\<open>/^T\s*(.*)$/\<close> with T the triangle.\<close>

definition ACTION_REGEX :: regex where
  "ACTION_REGEX = seqs [Bol, Lit [ch_triangle], Star Space, Group 1 (Star Dot), Eol]"

text \<open>\<^verbatim>\<open>/[tag:(.+?)]/g\<close>: lenticular brackets, the two-character word for tag and the
  full-width colon.\<close>

definition TAG_REGEX :: regex where
  "TAG_REGEX =
     seqs [Lit [ch_lbracket, 0x6807, 0x7B7E, ch_colon], Group 1 (LazyPlus Dot),
           Lit [ch_rbracket]]"

definition FLASHBACK_START :: jsstring where
  "FLASHBACK_START = [ch_lbracket, 0x95EA, 0x56DE, ch_rbracket]"

definition FLASHBACK_END :: jsstring where
  "FLASHBACK_END = [ch_lbracket, 0x95EA, 0x56DE, 0x7ED3, 0x675F, ch_rbracket]"

definition LOCATION_TYPES :: "jsstring list" where
  "LOCATION_TYPES = [[ch_interior], [ch_exterior]]"

definition WORDS_PER_MINUTE :: nat where
  "WORDS_PER_MINUTE = 200"

section \<open>Types (types.ts, services/SceneService.ts)\<close>

text \<open>
  \<open>SceneNumber\<close>, \<open>ParsedSceneHeader\<close> and \<open>SceneInfo\<close> are separate interfaces in the
  source that share their first fields; the records extend one another so that the
  fields keep their names.
\<close>

record SceneNumber =
  episode :: nat
  scene :: nat

record ParsedSceneHeader = SceneNumber +
  time :: jsstring
  locationType :: jsstring
  location :: jsstring

record SceneInfo = ParsedSceneHeader +
  line :: nat
  characters :: "jsstring list"
  tags :: "jsstring list"
  wordCount :: nat
  isFlashback :: bool

record SceneIndex =
  scenes :: "SceneInfo list"
  episodeCount :: nat
  lastUpdated :: nat
  contentHash :: jsstring

record ValidationError =
  position :: nat
  message :: jsstring

record ValidationResult =
  valid :: bool
  errors :: "ValidationError list"

section \<open>Scene header grammar (services/SceneService.ts)\<close>

definition parseSceneHeader :: "jsstring \<Rightarrow> ParsedSceneHeader option" where
  "parseSceneHeader str =
     (let trimmedLine = trim str in
      case jsMatch SCENE_HEADER_REGEX trimmedLine of
        None \<Rightarrow> None
      | Some m \<Rightarrow>
          Some \<lparr>episode = parseInt10 (group m 1), scene = parseInt10 (group m 2),
                time = group m 3, locationType = group m 4,
                location = trim (group m 5)\<rparr>)"


text \<open>
  The messages of \<open>validateSceneHeader\<close>, as the code units of the source's string
  literals.
\<close>

text \<open>The scene header must not be empty.\<close>

definition MSG_EMPTY :: jsstring where
  "MSG_EMPTY =
     [0x573A, 0x666F, 0x5934, 0x4E0D, 0x80FD, 0x4E3A, 0x7A7A]"

text \<open>No valid scene number (format episode-scene, such as 1-1).\<close>

definition MSG_NO_NUMBER :: jsstring where
  "MSG_NO_NUMBER =
     [0x7F3A, 0x5C11, 0x6709, 0x6548, 0x7684, 0x573A, 0x666F, 0x7F16, 0x53F7, 0xFF08,
      0x683C, 0x5F0F, 0xFF1A, 0x96C6, 0x6570, 0x002D, 0x573A, 0x6570, 0xFF0C, 0x5982,
      0x0020, 0x0031, 0x002D, 0x0031, 0xFF09]"

text \<open>Time, location type and location are missing.\<close>

definition MSG_NO_FIELDS :: jsstring where
  "MSG_NO_FIELDS =
     [0x7F3A, 0x5C11, 0x65F6, 0x95F4, 0x3001, 0x5185, 0x5916, 0x666F, 0x548C, 0x5730,
      0x70B9, 0x4FE1, 0x606F]"

text \<open>The time is missing.\<close>

definition MSG_NO_TIME :: jsstring where
  "MSG_NO_TIME =
     [0x7F3A, 0x5C11, 0x65F6, 0x95F4, 0x4FE1, 0x606F, 0xFF08, 0x5982, 0xFF1A, 0x65E5,
      0x3001, 0x591C, 0x3001, 0x96E8, 0x591C, 0x3001, 0x96EA, 0x591C, 0xFF09]"

text \<open>The location type is missing.\<close>

definition MSG_NO_LOCATION_TYPE :: jsstring where
  "MSG_NO_LOCATION_TYPE =
     [0x7F3A, 0x5C11, 0x5185, 0x5916, 0x666F, 0x4FE1, 0x606F, 0xFF08, 0x5185, 0x0020,
      0x6216, 0x0020, 0x5916, 0xFF09]"

text \<open>The location type must be one of the two tokens; the text up to the opening quote of the current value.\<close>

definition MSG_BAD_LOCATION_TYPE :: jsstring where
  "MSG_BAD_LOCATION_TYPE =
     [0x5185, 0x5916, 0x666F, 0x5FC5, 0x987B, 0x662F, 0x0022, 0x5185, 0x0022, 0x6216,
      0x0022, 0x5916, 0x0022, 0xFF0C, 0x5F53, 0x524D, 0x503C, 0xFF1A, 0x0022]"

text \<open>The location is missing.\<close>

definition MSG_NO_LOCATION :: jsstring where
  "MSG_NO_LOCATION =
     [0x7F3A, 0x5C11, 0x5730, 0x70B9, 0x4FE1, 0x606F]"

text \<open>The scene header is malformed.\<close>

definition MSG_BAD_FORMAT :: jsstring where
  "MSG_BAD_FORMAT =
     [0x573A, 0x666F, 0x5934, 0x683C, 0x5F0F, 0x4E0D, 0x6B63, 0x786E, 0xFF0C, 0x6B63,
      0x786E, 0x683C, 0x5F0F, 0xFF1A, 0x7F16, 0x53F7, 0x0020, 0x65F6, 0x95F4, 0x0020,
      0x5185, 0x5916, 0x666F, 0x0020, 0x5730, 0x70B9, 0xFF08, 0x5982, 0xFF1A, 0x0031,
      0x002D, 0x0031, 0x0020, 0x65E5, 0x0020, 0x5185, 0x0020, 0x5496, 0x5561, 0x9986,
      0xFF09]"

definition validateSceneHeader :: "jsstring \<Rightarrow> ValidationResult" where
  "validateSceneHeader str =
     (let trimmedLine = trim str in
      if trimmedLine = [] then
        \<lparr>valid = False, errors = [\<lparr>position = 0, message = MSG_EMPTY\<rparr>]\<rparr>
      else
        (case jsMatch SCENE_NUMBER_REGEX trimmedLine of
           None \<Rightarrow> \<lparr>valid = False, errors = [\<lparr>position = 0, message = MSG_NO_NUMBER\<rparr>]\<rparr>
         | Some numberMatch \<Rightarrow>
             (let afterNumber =
                    trim (substringFrom trimmedLine (length (matched trimmedLine numberMatch)));
                  numberEndPos = length (matched trimmedLine numberMatch)
              in
              if afterNumber = [] then
                \<lparr>valid = False,
                 errors = [\<lparr>position = numberEndPos, message = MSG_NO_FIELDS\<rparr>]\<rparr>
              else
                (let parts = splitWs afterNumber;
                     timeLength = (case parts of [] \<Rightarrow> 0 | p # _ \<Rightarrow> length p);
                     errors1 =
                       (if length parts < 1 \<or> timeLength = 0
                        then [\<lparr>position = numberEndPos, message = MSG_NO_TIME\<rparr>] else []);
                     errors2 = errors1 @
                       (if length parts < 2
                        then [\<lparr>position = numberEndPos + timeLength + 1,
                               message = MSG_NO_LOCATION_TYPE\<rparr>]
                        else if parts ! 1 \<notin> set LOCATION_TYPES
                        then [\<lparr>position = numberEndPos + timeLength + 1,
                               message = MSG_BAD_LOCATION_TYPE @ parts ! 1 @ [0x22]\<rparr>]
                        else []);
                     errors3 = errors2 @
                       (if length parts < 3
                        then [\<lparr>position = length trimmedLine, message = MSG_NO_LOCATION\<rparr>]
                        else [])
                 in
                 if length errors3 > 0 then \<lparr>valid = False, errors = errors3\<rparr>
                 else
                   (case jsMatch SCENE_HEADER_REGEX trimmedLine of
                      None \<Rightarrow>
                        \<lparr>valid = False, errors = [\<lparr>position = 0, message = MSG_BAD_FORMAT\<rparr>]\<rparr>
                    | Some fullMatch \<Rightarrow> \<lparr>valid = True, errors = []\<rparr>)))))"

definition isSceneNumberLine :: "jsstring \<Rightarrow> bool" where
  "isSceneNumberLine str = jsTest SCENE_NUMBER_REGEX (trim str)"


definition parseCharacterList :: "jsstring \<Rightarrow> jsstring list option" where
  "parseCharacterList str =
     (case jsMatch CHARACTER_LIST_REGEX (trim str) of
        None \<Rightarrow> None
      | Some m \<Rightarrow> Some (filter (\<lambda>name. length name > 0) (splitWs (group m 1))))"

definition formatSceneNumber :: "'a SceneNumber_scheme \<Rightarrow> jsstring" where
  "formatSceneNumber sceneNumber =
     numToString (episode sceneNumber) @ [ch_hyphen] @ numToString (scene sceneNumber)"

definition countWords :: "jsstring \<Rightarrow> nat" where
  "countWords text = length (removeWhiteSpace text)"


text \<open>
  What a successful match says about the input: each matcher consumed a piece of the
  expected shape and the continuation succeeded on the rest.
\<close>

lemma matchLit_Some:
  "matchLit s k i xs cs = Some r \<Longrightarrow> \<exists>ys. xs = s @ ys \<and> k (i + length s) ys cs = Some r"
proof (induction s k i xs cs rule: matchLit.induct)
  case (1 k i xs cs)
  then show ?case by simp
next
  case (2 c s k i cs)
  then show ?case by simp
next
  case (3 c s k i x xs cs)
  then show ?case by (auto split: if_splits)
qed

lemma matchOne_Some:
  "matchOne p k i xs cs = Some r \<Longrightarrow> \<exists>x ys. xs = x # ys \<and> p x \<and> k (Suc i) ys cs = Some r"
  by (cases xs) (auto split: if_splits)

lemma matchMany_Some:
  "matchMany p k i xs cs = Some r \<Longrightarrow>
   \<exists>w ys. xs = w @ ys \<and> (\<forall>x\<in>set w. p x) \<and> k (i + length w) ys cs = Some r"
proof (induction p k i xs cs rule: matchMany.induct)
  case (1 p k i cs)
  then show ?case by simp
next
  case (2 p k i x xs cs)
  show ?case
  proof (cases "p x \<and> matchMany p k (Suc i) xs cs \<noteq> None")
    case True
    with "2.prems" have "matchMany p k (Suc i) xs cs = Some r" by auto
    with True "2.IH" obtain w ys where
      "xs = w @ ys" "\<forall>x\<in>set w. p x" "k (Suc i + length w) ys cs = Some r" by blast
    with True have "x # xs = (x # w) @ ys \<and> (\<forall>y\<in>set (x # w). p y)
        \<and> k (i + length (x # w)) ys cs = Some r" by simp
    then show ?thesis by blast
  next
    case False
    with "2.prems" have "k i (x # xs) cs = Some r" by (auto split: if_splits)
    then have "x # xs = [] @ (x # xs) \<and> (\<forall>y\<in>set []. p y)
        \<and> k (i + length ([] :: jsstring)) (x # xs) cs = Some r" by simp
    then show ?thesis by blast
  qed
qed

lemma matchFew_Some:
  "matchFew p k i xs cs = Some r \<Longrightarrow>
   \<exists>w ys. xs = w @ ys \<and> (\<forall>x\<in>set w. p x) \<and> k (i + length w) ys cs = Some r"
proof (induction p k i xs cs rule: matchFew.induct)
  case (1 p k i cs)
  then show ?case by simp
next
  case (2 p k i x xs cs)
  show ?case
  proof (cases "k i (x # xs) cs")
    case (Some r')
    with "2.prems" have "k i (x # xs) cs = Some r" by simp
    then have "x # xs = [] @ (x # xs) \<and> (\<forall>y\<in>set []. p y)
        \<and> k (i + length ([] :: jsstring)) (x # xs) cs = Some r" by simp
    then show ?thesis by blast
  next
    case None
    with "2.prems" have px: "p x" and "matchFew p k (Suc i) xs cs = Some r"
      by (auto split: if_splits)
    with None "2.IH" obtain w ys where
      "xs = w @ ys" "\<forall>x\<in>set w. p x" "k (Suc i + length w) ys cs = Some r" by blast
    with px have "x # xs = (x # w) @ ys \<and> (\<forall>y\<in>set (x # w). p y)
        \<and> k (i + length (x # w)) ys cs = Some r" by simp
    then show ?thesis by blast
  qed
qed

text \<open>
  A successful match hands its continuation a later position inside the input, at least
  \<open>minLength\<close> further on.
\<close>

lemma rmatch_advances:
  "rmatch r k i xs cs = Some res \<Longrightarrow>
   \<exists>j ys cs'. i + minLength r \<le> j \<and> j + length ys = i + length xs \<and> k j ys cs' = Some res"
proof (induction r arbitrary: k i xs cs)
  case Bol
  then have "i + minLength Bol \<le> i \<and> i + length xs = i + length xs \<and> k i xs cs = Some res"
    by (simp split: if_splits)
  then show ?case by blast
next
  case Eol
  then have "i + minLength Eol \<le> i \<and> i + length xs = i + length xs \<and> k i xs cs = Some res"
    by (simp split: if_splits)
  then show ?case by blast
next
  case (Lit s)
  then have "matchLit s k i xs cs = Some res" by simp
  from matchLit_Some [OF this] obtain ys where "xs = s @ ys" "k (i + length s) ys cs = Some res"
    by blast
  then have "i + minLength (Lit s) \<le> i + length s \<and> (i + length s) + length ys = i + length xs
      \<and> k (i + length s) ys cs = Some res" by simp
  then show ?case by blast
next
  case (Cls c)
  then have "matchOne (in_cclass c) k i xs cs = Some res" by simp
  from matchOne_Some [OF this] obtain x ys where "xs = x # ys" "k (Suc i) ys cs = Some res"
    by blast
  then have "i + minLength (Cls c) \<le> Suc i \<and> Suc i + length ys = i + length xs
      \<and> k (Suc i) ys cs = Some res" by simp
  then show ?case by blast
next
  case (Star c)
  then have "matchMany (in_cclass c) k i xs cs = Some res" by simp
  from matchMany_Some [OF this] obtain w ys where
    "xs = w @ ys" "k (i + length w) ys cs = Some res" by blast
  then have "i + minLength (Star c) \<le> i + length w \<and> (i + length w) + length ys = i + length xs
      \<and> k (i + length w) ys cs = Some res" by simp
  then show ?case by blast
next
  case (Plus c)
  then have "matchOne (in_cclass c) (matchMany (in_cclass c) k) i xs cs = Some res" by simp
  from matchOne_Some [OF this] obtain x zs where
    x: "xs = x # zs" and "matchMany (in_cclass c) k (Suc i) zs cs = Some res" by blast
  from matchMany_Some [OF this(2)] obtain w ys where
    "zs = w @ ys" "k (Suc i + length w) ys cs = Some res" by blast
  with x have "i + minLength (Plus c) \<le> Suc i + length w
      \<and> (Suc i + length w) + length ys = i + length xs
      \<and> k (Suc i + length w) ys cs = Some res" by simp
  then show ?case by blast
next
  case (LazyPlus c)
  then have "matchOne (in_cclass c) (matchFew (in_cclass c) k) i xs cs = Some res" by simp
  from matchOne_Some [OF this] obtain x zs where
    x: "xs = x # zs" and "matchFew (in_cclass c) k (Suc i) zs cs = Some res" by blast
  from matchFew_Some [OF this(2)] obtain w ys where
    "zs = w @ ys" "k (Suc i + length w) ys cs = Some res" by blast
  with x have "i + minLength (LazyPlus c) \<le> Suc i + length w
      \<and> (Suc i + length w) + length ys = i + length xs
      \<and> k (Suc i + length w) ys cs = Some res" by simp
  then show ?case by blast
next
  case (Seq a b)
  from Seq.prems have "rmatch a (rmatch b k) i xs cs = Some res" by simp
  from Seq.IH(1) [OF this] obtain j ys cs' where
    j: "i + minLength a \<le> j" "j + length ys = i + length xs"
    and "rmatch b k j ys cs' = Some res" by blast
  from Seq.IH(2) [OF this(3)] obtain j' ys' cs'' where
    "j + minLength b \<le> j'" "j' + length ys' = j + length ys" "k j' ys' cs'' = Some res"
    by blast
  with j have "i + minLength (Seq a b) \<le> j' \<and> j' + length ys' = i + length xs
      \<and> k j' ys' cs'' = Some res" by simp
  then show ?case by blast
next
  case (Alt a b)
  show ?case
  proof (cases "rmatch a k i xs cs")
    case None
    with Alt.prems have "rmatch b k i xs cs = Some res" by simp
    from Alt.IH(2) [OF this] obtain j ys cs' where
      "i + minLength b \<le> j" "j + length ys = i + length xs" "k j ys cs' = Some res" by blast
    then have "i + minLength (Alt a b) \<le> j \<and> j + length ys = i + length xs
      \<and> k j ys cs' = Some res" by simp
    then show ?thesis by blast
  next
    case (Some r')
    with Alt.prems have "rmatch a k i xs cs = Some res" by simp
    from Alt.IH(1) [OF this] obtain j ys cs' where
      "i + minLength a \<le> j" "j + length ys = i + length xs" "k j ys cs' = Some res" by blast
    then have "i + minLength (Alt a b) \<le> j \<and> j + length ys = i + length xs
      \<and> k j ys cs' = Some res" by simp
    then show ?thesis by blast
  qed
next
  case (Group n a)
  from Group.prems have
    "rmatch a (\<lambda>j ys cs'. k j ys (cs'(n \<mapsto> take (j - i) xs))) i xs cs = Some res" by simp
  from Group.IH [OF this] obtain j ys cs' where
    "i + minLength a \<le> j" "j + length ys = i + length xs"
    "k j ys (cs'(n \<mapsto> take (j - i) xs)) = Some res" by blast
  then have "i + minLength (Group n a) \<le> j \<and> j + length ys = i + length xs
      \<and> k j ys (cs'(n \<mapsto> take (j - i) xs)) = Some res" by simp
  then show ?case by blast
qed

lemma matchAt_end:
  assumes "matchAt r i xs = Some m"
  shows "i + minLength r \<le> m_end m \<and> m_end m \<le> i + length xs"
  using rmatch_advances [OF assms [unfolded matchAt_def]] by auto

lemma execFrom_end:
  "execFrom r i xs = Some m \<Longrightarrow> i + minLength r \<le> m_end m \<and> m_end m \<le> i + length xs"
proof (induction xs arbitrary: i)
  case Nil
  then show ?case using matchAt_end [of r i "[]" m] by simp
next
  case (Cons x xs)
  show ?case
  proof (cases "matchAt r i (x # xs)")
    case None
    with Cons.prems have "execFrom r (Suc i) xs = Some m" by simp
    from Cons.IH [OF this] show ?thesis by simp
  next
    case (Some m')
    with Cons.prems have "m' = m" by simp
    with Some show ?thesis using matchAt_end [of r i "x # xs" m] by simp
  qed
qed

text \<open>
  \<open>parseSceneTags\<close>: the loop \<open>while ((match = regex.exec(text)) !== null)\<close> over a
  pattern with the \<open>g\<close> flag; each search starts where the last match ended.
  \<open>tagsFrom i xs\<close> is the loop with \<open>lastIndex = i\<close> and \<open>xs\<close> the text from there on.
\<close>

function tagsFrom :: "nat \<Rightarrow> jsstring \<Rightarrow> jsstring list" where
  "tagsFrom i xs =
     (case execFrom TAG_REGEX i xs of
        None \<Rightarrow> []
      | Some m \<Rightarrow> group m 1 # tagsFrom (m_end m) (drop (m_end m - i) xs))"
  by pat_completeness auto
termination
proof (relation "measure (\<lambda>(i, xs). length xs)")
  show "wf (measure (\<lambda>(i, xs). length xs))" by simp
next
  fix i xs m
  assume a: "execFrom TAG_REGEX i xs = Some m"
  from execFrom_end [OF a] have "i < m_end m" "m_end m \<le> i + length xs"
    by (simp_all add: TAG_REGEX_def)
  then show "((m_end m, drop (m_end m - i) xs), (i, xs)) \<in> measure (\<lambda>(i, xs). length xs)"
    by simp
qed


definition parseSceneTags :: "jsstring \<Rightarrow> jsstring list" where
  "parseSceneTags text = tagsFrom 0 text"

declare tagsFrom.simps [simp del]

text \<open>
  \<open>calculateHash\<close>: \<open>hash = ((hash << 5) - hash) + char; hash = hash & hash\<close> for every
  code unit. \<open>hash & hash\<close> brings the sum back to a 32-bit integer and the sum never
  leaves the range a double holds exactly, so the loop is arithmetic modulo \<open>2 ^ 32\<close>;
  \<open>toString(16)\<close> prints the signed value, a minus sign before the digits of a negative one.
\<close>

definition hexDigit :: "nat \<Rightarrow> jschar" where
  "hexDigit d = (if d < 10 then of_nat (48 + d) else of_nat (87 + d))"

fun hexDigits :: "nat \<Rightarrow> jsstring" where
  "hexDigits n =
     (if n < 16 then [hexDigit n] else hexDigits (n div 16) @ [hexDigit (n mod 16)])"

declare hexDigits.simps [simp del]

definition int32ToString16 :: "32 word \<Rightarrow> jsstring" where
  "int32ToString16 h =
     (if sint h < 0 then ch_hyphen # hexDigits (nat (- sint h)) else hexDigits (nat (sint h)))"

definition hashStep :: "32 word \<Rightarrow> jschar \<Rightarrow> 32 word" where
  "hashStep hash c = (push_bit 5 hash - hash) + ucast c"

definition calculateHash :: "jsstring \<Rightarrow> jsstring" where
  "calculateHash content = int32ToString16 (foldl hashStep 0 content)"

section \<open>Document indexer (SceneService.parseDocument)\<close>

text \<open>The variables of the scan loop of \<open>parseDocument\<close>.\<close>

record ScanState =
  scanned :: "SceneInfo list"
  inFlashback :: bool
  currentSceneStartLine :: int
  currentSceneContent :: "jsstring list"
  currentTags :: "jsstring list"
  maxEpisode :: nat

text \<open>\<open>scenes[scenes.length - 1]\<close> assigned to, for a list that is not empty.\<close>

definition updateLast :: "('a \<Rightarrow> 'a) \<Rightarrow> 'a list \<Rightarrow> 'a list" where
  "updateLast f xs = (if xs = [] then [] else butlast xs @ [f (last xs)])"

definition closeScene :: "ScanState \<Rightarrow> SceneInfo list" where
  "closeScene st =
     updateLast
       (\<lambda>lastScene. lastScene\<lparr>wordCount := countWords (joinWith ch_newline (currentSceneContent st)),
                              tags := currentTags st\<rparr>)
       (scanned st)"

text \<open>One turn of the loop, for the line \<open>str\<close> at index \<open>lineIndex\<close>.\<close>

definition scanLine :: "nat \<Rightarrow> jsstring \<Rightarrow> ScanState \<Rightarrow> ScanState" where
  "scanLine lineIndex str st =
     (let trimmedLine = trim str in
      if trimmedLine = FLASHBACK_START then st\<lparr>inFlashback := True\<rparr>
      else if trimmedLine = FLASHBACK_END then st\<lparr>inFlashback := False\<rparr>
      else
        (case parseSceneHeader trimmedLine of
           Some parsedHeader \<Rightarrow>
             (let scenes1 =
                    (if currentSceneStartLine st \<ge> 0 \<and> length (scanned st) > 0
                     then closeScene st else scanned st);
                  sceneInfo =
                    \<lparr>episode = episode parsedHeader, scene = scene parsedHeader,
                     time = time parsedHeader, locationType = locationType parsedHeader,
                     location = location parsedHeader, line = lineIndex, characters = [],
                     tags = [], wordCount = 0, isFlashback = inFlashback st\<rparr>
              in st\<lparr>scanned := scenes1 @ [sceneInfo],
                    currentSceneStartLine := int lineIndex,
                    currentSceneContent := [],
                    currentTags := [],
                    maxEpisode := (if episode parsedHeader > maxEpisode st
                                   then episode parsedHeader else maxEpisode st)\<rparr>)
         | None \<Rightarrow>
             if currentSceneStartLine st \<ge> 0 then
               (case parseCharacterList trimmedLine of
                  Some chars \<Rightarrow>
                    (if length (scanned st) > 0
                     then st\<lparr>scanned := updateLast (\<lambda>s. s\<lparr>characters := chars\<rparr>) (scanned st)\<rparr>
                     else st)
                | None \<Rightarrow>
                    st\<lparr>currentTags := currentTags st @ parseSceneTags trimmedLine,
                       currentSceneContent := currentSceneContent st @ [str]\<rparr>)
             else st))"

fun scanLines :: "nat \<Rightarrow> jsstring list \<Rightarrow> ScanState \<Rightarrow> ScanState" where
  "scanLines lineIndex [] st = st"
| "scanLines lineIndex (str # rest) st = scanLines (Suc lineIndex) rest (scanLine lineIndex str st)"

definition initialScan :: ScanState where
  "initialScan =
     \<lparr>scanned = [], inFlashback = False, currentSceneStartLine = - 1,
      currentSceneContent = [], currentTags = [], maxEpisode = 0\<rparr>"

text \<open>
  \<open>parseDocument\<close> reads and writes the service's field \<open>this.index\<close> and reads the
  clock; the model takes the clock's value \<open>now\<close> and returns the index it hands back
  together with the new \<open>this.index\<close>. The early return leaves \<open>this.index\<close> as it was.
\<close>

definition parseDocument ::
  "SceneIndex \<Rightarrow> jsstring \<Rightarrow> SceneIndex option \<Rightarrow> nat \<Rightarrow> SceneIndex \<times> SceneIndex" where
  "parseDocument this content previousIndex now =
     (let hash = calculateHash content in
      case (case previousIndex of
              Some prev \<Rightarrow> if contentHash prev = hash then Some prev else None
            | None \<Rightarrow> None) of
        Some prev \<Rightarrow> (prev, this)
      | None \<Rightarrow>
          (let st = scanLines 0 (splitOn ch_newline content) initialScan;
               scenes2 =
                 (if length (scanned st) > 0 \<and> length (currentSceneContent st) > 0
                  then closeScene st else scanned st);
               newIndex = \<lparr>scenes = scenes2, episodeCount = maxEpisode st,
                           lastUpdated = now, contentHash = hash\<rparr>
           in (newIndex, newIndex)))"

text \<open>
  The number pairs of the lines of a document that parse as scene headers, in document
  order: what the header lines themselves say, against which the index is compared.
\<close>

definition headerNumbers :: "jsstring list \<Rightarrow> (nat \<times> nat) list" where
  "headerNumbers ls =
     concat (map (\<lambda>l. case parseSceneHeader (trim l) of
                         None \<Rightarrow> [] | Some h \<Rightarrow> [(episode h, scene h)]) ls)"

section \<open>Scene numbering (SceneService)\<close>

text \<open>
  The loop that \<open>getNextSceneNumber\<close> and \<open>needsRenumbering\<close> share: it walks the scenes
  in index order, remembers the last one at or before the cursor line and stops at the
  first one after it.
\<close>

fun findPrevNext ::
  "nat \<Rightarrow> SceneInfo list \<Rightarrow> SceneInfo option \<Rightarrow> SceneInfo option \<times> SceneInfo option" where
  "findPrevNext cursorLine [] prevScene = (prevScene, None)"
| "findPrevNext cursorLine (s # rest) prevScene =
     (if line s \<le> cursorLine then findPrevNext cursorLine rest (Some s)
      else (prevScene, Some s))"

definition getNextSceneNumber :: "SceneIndex \<Rightarrow> nat \<Rightarrow> SceneNumber" where
  "getNextSceneNumber this cursorLine =
     (case scenes this of
        [] \<Rightarrow> \<lparr>episode = 1, scene = 1\<rparr>
      | firstScene # _ \<Rightarrow>
          (case findPrevNext cursorLine (scenes this) None of
             (None, _) \<Rightarrow> \<lparr>episode = episode firstScene, scene = 1\<rparr>
           | (Some prevScene, None) \<Rightarrow>
               \<lparr>episode = episode prevScene, scene = scene prevScene + 1\<rparr>
           | (Some prevScene, Some nextScene) \<Rightarrow>
               if episode prevScene = episode nextScene
               then \<lparr>episode = episode prevScene, scene = scene prevScene + 1\<rparr>
               else \<lparr>episode = episode prevScene, scene = scene prevScene + 1\<rparr>))"

definition needsRenumbering :: "SceneIndex \<Rightarrow> nat \<Rightarrow> bool" where
  "needsRenumbering this cursorLine =
     (if length (scenes this) = 0 then False
      else
        (case findPrevNext cursorLine (scenes this) None of
           (_, None) \<Rightarrow> False
         | (Some prevScene, Some nextScene) \<Rightarrow>
             if episode prevScene = episode nextScene then True else False
         | (None, Some nextScene) \<Rightarrow> if scene nextScene = 1 then True else False))"


definition generateSceneHeaderTemplate ::
  "SceneNumber \<Rightarrow> jsstring \<Rightarrow> jsstring \<Rightarrow> jsstring \<Rightarrow> jsstring" where
  "generateSceneHeaderTemplate sceneNumber tm locType loc =
     numToString (episode sceneNumber) @ [ch_hyphen] @ numToString (scene sceneNumber)
       @ [ch_space] @ tm @ [ch_space] @ locType @ [ch_space] @ loc"



section \<open>Line classifiers of the exporters\<close>

datatype LineType =
    SceneHeader
  | CharacterList
  | Dialogue
  | SimpleDialogue
  | Action
  | FlashbackStart
  | FlashbackEnd
  | EpisodeHeader
  | Empty
  | Other

text \<open>\<^verbatim>\<open>/^#\s*N\d+E/\<close> (PDF exporter) and \<^verbatim>\<open>/^#\s*N.+E/\<close> (Word exporter), with N the
  ordinal prefix and E the episode character; \<^verbatim>\<open>/^PT[:c]/\<close> (Word exporter), with PT the
  two-character word for cast, c the full-width colon.\<close>

definition PDF_EPISODE_REGEX :: regex where
  "PDF_EPISODE_REGEX =
     seqs [Bol, Lit [ch_hash], Star Space, Lit [ch_ordinal], Plus Digit, Lit [ch_episode]]"

definition WORD_EPISODE_REGEX :: regex where
  "WORD_EPISODE_REGEX =
     seqs [Bol, Lit [ch_hash], Star Space, Lit [ch_ordinal], Plus Dot, Lit [ch_episode]]"

definition WORD_CAST_REGEX :: regex where
  "WORD_CAST_REGEX = seqs [Bol, Lit [ch_person, ch_thing], Cls (OneOf [ch_colon, 0x3A])]"

text \<open>\<open>getLineType\<close> of exporters/PDFExporter.ts.\<close>

definition PDF_getLineType :: "jsstring \<Rightarrow> LineType" where
  "PDF_getLineType str =
     (let trimmed = trim str in
      if trimmed = [] then Empty
      else if trimmed = FLASHBACK_START then FlashbackStart
      else if trimmed = FLASHBACK_END then FlashbackEnd
      else if jsTest SCENE_HEADER_REGEX trimmed then SceneHeader
      else if jsTest CHARACTER_LIST_REGEX trimmed then CharacterList
      else if jsTest DIALOGUE_REGEX trimmed then Dialogue
      else if jsTest SIMPLE_DIALOGUE_REGEX trimmed then SimpleDialogue
      else if jsTest ACTION_REGEX trimmed then Action
      else if jsTest PDF_EPISODE_REGEX trimmed then EpisodeHeader
      else Other)"

text \<open>\<open>getLineType\<close> of the Word exporter.\<close>

definition Word_getLineType :: "jsstring \<Rightarrow> LineType" where
  "Word_getLineType str =
     (let trimmed = trim str in
      if trimmed = [] then Empty
      else if trimmed = FLASHBACK_START then FlashbackStart
      else if trimmed = FLASHBACK_END then FlashbackEnd
      else if jsTest WORD_EPISODE_REGEX trimmed then EpisodeHeader
      else if jsTest SCENE_HEADER_REGEX trimmed then SceneHeader
      else if jsTest WORD_CAST_REGEX trimmed then CharacterList
      else if jsTest CHARACTER_LIST_REGEX trimmed then CharacterList
      else if jsTest ACTION_REGEX trimmed then Action
      else if jsTest DIALOGUE_REGEX trimmed then Dialogue
      else if jsTest SIMPLE_DIALOGUE_REGEX trimmed then SimpleDialogue
      else Other)"

section \<open>Statistics (services/StatsService.ts)\<close>

text \<open>\<open>StatsService.countWords\<close>: the empty string is falsy and counts 0.\<close>

definition Stats_countWords :: "jsstring \<Rightarrow> nat" where
  "Stats_countWords text = (if text = [] then 0 else length (removeWhiteSpace text))"

text \<open>What one line adds to \<open>totalWords\<close> in the loop of \<open>countContentWords\<close>.\<close>

definition contentWordsOfLine :: "jsstring \<Rightarrow> nat" where
  "contentWordsOfLine str =
     (let trimmedLine = trim str in
      if trimmedLine = [] then 0
      else if jsTest SCENE_NUMBER_REGEX trimmedLine then 0
      else if startsWith trimmedLine [ch_person, ch_space] then 0
      else if trimmedLine = [ch_lbracket, 0x95EA, 0x56DE, ch_rbracket]
            \<or> trimmedLine = [ch_lbracket, 0x95EA, 0x56DE, 0x7ED3, 0x675F, ch_rbracket] then 0
      else if startsWith trimmedLine [ch_lbracket, 0x6807, 0x7B7E, ch_colon] then 0
      else if trimmedLine = [ch_hyphen, ch_hyphen, ch_hyphen] then 0
      else if startsWith trimmedLine [ch_hash] then 0
      else
        (case jsMatch DIALOGUE_REGEX trimmedLine of
           Some dialogueMatch \<Rightarrow> Stats_countWords (group dialogueMatch 3)
         | None \<Rightarrow>
             (case jsMatch SIMPLE_DIALOGUE_REGEX trimmedLine of
                Some simpleDialogueMatch \<Rightarrow> Stats_countWords (group simpleDialogueMatch 2)
              | None \<Rightarrow>
                  (case jsMatch ACTION_REGEX trimmedLine of
                     Some actionMatch \<Rightarrow> Stats_countWords (group actionMatch 1)
                   | None \<Rightarrow> Stats_countWords trimmedLine))))"

definition countContentWords :: "jsstring \<Rightarrow> nat" where
  "countContentWords text =
     (if text = [] then 0
      else foldl (\<lambda>totalWords str. totalWords + contentWordsOfLine str) 0
             (splitOn ch_newline text))"

text \<open>
  \<open>estimateDuration\<close>. The word count is an integer; the quotient by 200, its double and
  the half of the ceiling are computed on doubles in the source. For a count below
  \<open>2 ^ 53\<close> the rounding of the quotient cannot carry it across an integer (a count that
  is no multiple of 100 is at least a hundredth away from one, a multiple is divided
  exactly), so the result is the exact rational one, a multiple of one half. From
  \<open>2 ^ 53\<close> on the double quotient can round across a half and the model no longer
  describes the source; the property below is stated for counts below \<open>2 ^ 53\<close>.
\<close>

definition estimateDuration :: "int \<Rightarrow> rat" where
  "estimateDuration wc =
     (if wc \<le> 0 then 0
      else
        (let rawDuration = (of_int wc :: rat) / of_nat WORDS_PER_MINUTE
         in of_int \<lceil>rawDuration * 2\<rceil> / 2))"

section \<open>Example data\<close>

text \<open>
  A scene record with a given episode, scene number and line and nothing else of note,
  and an index around a list of scenes: the inputs of the numbering examples.
\<close>

definition sceneAt :: "nat \<Rightarrow> nat \<Rightarrow> nat \<Rightarrow> SceneInfo" where
  "sceneAt e s l =
     \<lparr>episode = e, scene = s, time = [ch_day], locationType = [ch_interior],
      location = [0x5BA2, 0x5385], line = l, characters = [], tags = [], wordCount = 0,
      isFlashback = False\<rparr>"

definition indexOf :: "SceneInfo list \<Rightarrow> SceneIndex" where
  "indexOf ss = \<lparr>scenes = ss, episodeCount = 0, lastUpdated = 0, contentHash = []\<rparr>"

section \<open>Facts about the string functions and the matcher\<close>

text \<open>
  A greedy run over a class takes a whole block of the class's characters when the rest
  of the pattern succeeds behind the block.
\<close>

lemma matchMany_all:
  assumes "\<forall>x\<in>set w. p x" "ys = [] \<or> \<not> p (hd ys)" "k (i + length w) ys cs = Some r"
  shows "matchMany p k i (w @ ys) cs = Some r"
  using assms
proof (induction w arbitrary: i)
  case Nil
  then show ?case by (cases ys) auto
next
  case (Cons x w)
  from Cons.prems have "k (Suc i + length w) ys cs = Some r" by simp
  with Cons have "matchMany p k (Suc i) (w @ ys) cs = Some r" by simp
  with Cons.prems show ?case by simp
qed

lemma matchPlus_all:
  assumes "w \<noteq> []" "\<forall>x\<in>set w. p x" "ys = [] \<or> \<not> p (hd ys)"
    "k (i + length w) ys cs = Some r"
  shows "matchOne p (matchMany p k) i (w @ ys) cs = Some r"
proof -
  from assms(1) obtain x w' where w: "w = x # w'" by (cases w) auto
  with assms have "matchMany p k (Suc i) (w' @ ys) cs = Some r"
    by (intro matchMany_all) auto
  with w assms(2) show ?thesis by simp
qed

lemma execFrom_matchAt: "matchAt r i xs = Some m \<Longrightarrow> execFrom r i xs = Some m"
  by (cases xs) auto

lemma execFrom_Bol_later: "execFrom (Seq Bol r) (Suc i) xs = None"
  by (induction xs arbitrary: i) (auto simp: matchAt_def)

lemma jsMatch_Bol: "jsMatch (Seq Bol r) s = matchAt (Seq Bol r) 0 s"
  by (cases s) (auto simp: jsMatch_def execFrom_Bol_later split: option.splits)

lemma not_digit_hyphen: "\<not> isDigit ch_hyphen"
  by (simp add: isDigit_def)

lemma SCENE_NUMBER_REGEX_match:
  assumes a: "a \<noteq> []" "\<forall>c\<in>set a. isDigit c"
    and b: "b \<noteq> []" "\<forall>c\<in>set b. isDigit c"
    and r: "rest = [] \<or> \<not> isDigit (hd rest)"
  shows "jsMatch SCENE_NUMBER_REGEX (a @ ch_hyphen # b @ rest) =
         Some \<lparr>m_index = 0, m_end = length a + 1 + length b,
               m_groups = [1 \<mapsto> a, 2 \<mapsto> b]\<rparr>"
proof -
  let ?s = "a @ ch_hyphen # b @ rest"
  let ?res = "\<lparr>m_index = 0, m_end = length a + 1 + length b, m_groups = [1 \<mapsto> a, 2 \<mapsto> b]\<rparr>"
  let ?kf = "\<lambda>j (ys :: jsstring) cs. Some \<lparr>m_index = 0 :: nat, m_end = j, m_groups = cs\<rparr>"
  let ?k2 = "\<lambda>j (ys :: jsstring) (cs' :: captures).
      ?kf j ys (cs'(2 \<mapsto> take (j - (length a + 1)) (b @ rest)))"
  let ?k1 = "\<lambda>j (ys :: jsstring) (cs' :: captures).
      matchLit [ch_hyphen] (rmatch (Group 2 (Plus Digit)) ?kf) j ys (cs'(1 \<mapsto> take (j - 0) ?s))"
  have s2: "matchOne (in_cclass Digit) (matchMany (in_cclass Digit) ?k2) (length a + 1) (b @ rest) [1 \<mapsto> a] = Some ?res"
    using b r by (intro matchPlus_all) auto
  have s1: "matchOne (in_cclass Digit) (matchMany (in_cclass Digit) ?k1) 0 (a @ (ch_hyphen # b @ rest)) Map.empty = Some ?res"
    using a s2 by (intro matchPlus_all) (auto simp: not_digit_hyphen)
  have "matchAt SCENE_NUMBER_REGEX 0 ?s = Some ?res"
    using s1 by (simp add: matchAt_def SCENE_NUMBER_REGEX_def)
  then show ?thesis
    by (simp add: jsMatch_def execFrom_matchAt)
qed


lemma unat_digit: "d < 10 \<Longrightarrow> unat (of_nat (48 + d) :: jschar) = 48 + d"
  by (rule of_nat_inverse [OF refl]) simp

lemma isDigit_of_nat: "d < 10 \<Longrightarrow> isDigit (of_nat (48 + d))"
proof -
  assume d: "d < 10"
  have "unat (0x30 :: jschar) \<le> 48 + d" "48 + d \<le> unat (0x39 :: jschar)"
    using d by simp_all
  then show ?thesis
    by (simp only: isDigit_def word_le_nat_alt unat_digit [OF d])
qed

lemma isDigit_of_nat': "d < 10 \<Longrightarrow> isDigit (48 + word_of_nat d)"
  using isDigit_of_nat [of d] by simp

lemma digitValue_of_nat: "d < 10 \<Longrightarrow> digitValue (of_nat (48 + d)) = d"
  by (simp only: digitValue_def unat_digit)

lemma digitValue_of_nat': "d < 10 \<Longrightarrow> digitValue (48 + word_of_nat d) = d"
  using digitValue_of_nat [of d] by simp

lemma numToString_nonempty: "numToString n \<noteq> []"
  by (subst numToString.simps) simp

lemma numToString_digits: "\<forall>c\<in>set (numToString n). isDigit c"
proof (induction n rule: numToString.induct)
  case (1 n)
  show ?case
  proof (cases "n < 10")
    case True
    then show ?thesis by (subst numToString.simps) (simp add: isDigit_of_nat')
  next
    case False
    then have "\<forall>c\<in>set (numToString (n div 10)). isDigit c" using 1 by simp
    moreover have "isDigit (48 + word_of_nat (n mod 10))" by (rule isDigit_of_nat') simp
    ultimately show ?thesis using False by (subst numToString.simps) simp
  qed
qed

lemma parseInt10_snoc: "parseInt10 (xs @ [c]) = 10 * parseInt10 xs + digitValue c"
  by (simp add: parseInt10_def)

lemma parseInt10_numToString: "parseInt10 (numToString n) = n"
proof (induction n rule: numToString.induct)
  case (1 n)
  show ?case
  proof (cases "n < 10")
    case True
    then show ?thesis
      by (subst numToString.simps) (simp add: parseInt10_def digitValue_of_nat')
  next
    case False
    then have "parseInt10 (numToString (n div 10)) = n div 10" using 1 by simp
    then show ?thesis using False
      by (subst numToString.simps) (simp add: parseInt10_snoc digitValue_of_nat')
  qed
qed

lemma digit_not_space: "isDigit c \<Longrightarrow> \<not> isWhiteSpace c"
proof
  assume d: "isDigit c" and w: "isWhiteSpace c"
  from d have "48 \<le> unat c" "unat c \<le> 57"
    by (simp_all add: isDigit_def word_le_nat_alt)
  moreover from w have "unat c \<in> unat ` set [0x09, 0x0A, 0x0B, 0x0C, 0x0D, 0x20, 0xA0, 0x1680,
      0x2000, 0x2001, 0x2002, 0x2003, 0x2004, 0x2005, 0x2006, 0x2007, 0x2008, 0x2009, 0x200A,
      0x2028, 0x2029, 0x202F, 0x205F, 0x3000, 0xFEFF :: jschar]"
    unfolding isWhiteSpace_def by (rule imageI)
  ultimately show False by auto
qed

lemma space_not_digit: "isWhiteSpace c \<Longrightarrow> \<not> isDigit c"
  using digit_not_space by blast

lemma trim_id:
  assumes "s \<noteq> []" "\<not> isWhiteSpace (hd s)" "\<not> isWhiteSpace (last s)"
  shows "trim s = s"
proof -
  from assms(1,2) have a: "dropWhile isWhiteSpace s = s" by (cases s) auto
  from assms(1,3) have "dropWhile isWhiteSpace (rev s) = rev s"
    by (cases "rev s") (auto simp: last_rev [symmetric] simp del: last_rev)
  with a show ?thesis by (simp add: trim_def)
qed

lemma trim_padded:
  assumes "s \<noteq> []" "\<not> isWhiteSpace (hd s)" "\<not> isWhiteSpace (last s)"
    and "\<forall>c\<in>set w1. isWhiteSpace c" "\<forall>c\<in>set w2. isWhiteSpace c"
  shows "trim (w1 @ s @ w2) = s"
proof -
  from assms(1,2,4) have a: "dropWhile isWhiteSpace (w1 @ s @ w2) = s @ w2"
    by (cases s) (auto simp: dropWhile_append3 dropWhile_append2)
  from assms(1,3) have r: "dropWhile isWhiteSpace (rev s) = rev s"
    by (cases "rev s") (auto simp: last_rev [symmetric] simp del: last_rev)
  have "dropWhile isWhiteSpace (rev w2 @ rev s) = dropWhile isWhiteSpace (rev s)"
    by (rule dropWhile_append2) (use assms(5) in auto)
  with r a show ?thesis by (simp add: trim_def)
qed

text \<open>
  The scene header pattern on a line of the shape
  \<open>digits - digits space time space type space location\<close>: the match is the whole line
  and the groups are the five fields.
\<close>

lemma rmatch_seqs_Cons: "rmatch (seqs (r # r' # rs)) k = rmatch r (rmatch (seqs (r' # rs)) k)"
  by simp

lemma rmatch_Plus_all:
  assumes "w \<noteq> []" "\<forall>x\<in>set w. in_cclass c x" "ys = [] \<or> \<not> in_cclass c (hd ys)"
    "k (i + length w) ys cs = Some r"
  shows "rmatch (Plus c) k i (w @ ys) cs = Some r"
  using matchPlus_all [where p = "in_cclass c" and k = k and i = i and w = w and ys = ys
      and cs = cs and r = r, OF assms] by simp

lemma rmatch_Group_Plus_all:
  assumes "w \<noteq> []" "\<forall>x\<in>set w. in_cclass c x" "ys = [] \<or> \<not> in_cclass c (hd ys)"
    "k (i + length w) ys (cs(n \<mapsto> w)) = Some r"
  shows "rmatch (Group n (Plus c)) k i (w @ ys) cs = Some r"
proof -
  have "rmatch (Plus c) (\<lambda>j zs cs'. k j zs (cs'(n \<mapsto> take (j - i) (w @ ys)))) i (w @ ys) cs
      = Some r"
    using assms by (intro rmatch_Plus_all) auto
  then show ?thesis by simp
qed

lemma header_tail5:
  assumes "loc \<noteq> []" "\<forall>c\<in>set loc. \<not> isLineTerminator c"
  shows "rmatch (seqs [Group 5 (Plus Dot), Eol]) (kf i0) i loc cs =
         Some \<lparr>m_index = i0, m_end = i + length loc, m_groups = cs(5 \<mapsto> loc)\<rparr>"
proof -
  have "rmatch (Group 5 (Plus Dot)) (rmatch Eol (kf i0)) i (loc @ []) cs =
         Some \<lparr>m_index = i0, m_end = i + length loc, m_groups = cs(5 \<mapsto> loc)\<rparr>"
    using assms by (intro rmatch_Group_Plus_all) auto
  then show ?thesis by (simp only: seqs.simps rmatch.simps(8) append_Nil2)
qed

lemma isWhiteSpace_space: "isWhiteSpace ch_space"
  by (simp add: isWhiteSpace_def)

lemma header_tail4:
  assumes "loc \<noteq> []" "\<forall>c\<in>set loc. \<not> isLineTerminator c" "\<not> isWhiteSpace (hd loc)"
  shows "rmatch (seqs [Plus Space, Group 5 (Plus Dot), Eol]) (kf i0) i (ch_space # loc) cs =
         Some \<lparr>m_index = i0, m_end = i + 1 + length loc, m_groups = cs(5 \<mapsto> loc)\<rparr>"
proof -
  let ?k = "rmatch (seqs [Group 5 (Plus Dot), Eol]) (kf i0)"
  let ?res = "\<lparr>m_index = i0, m_end = i + 1 + length loc, m_groups = cs(5 \<mapsto> loc)\<rparr>"
  have "rmatch (Plus Space) ?k i ([ch_space] @ loc) cs = Some ?res"
  proof (rule rmatch_Plus_all)
    show "[ch_space] \<noteq> []" by simp
    show "\<forall>x\<in>set [ch_space]. in_cclass Space x" by (simp add: isWhiteSpace_space)
    show "loc = [] \<or> \<not> in_cclass Space (hd loc)" using assms(3) by simp
    show "?k (i + length [ch_space]) loc cs = Some ?res"
      using header_tail5 [OF assms(1,2), of i0 "i + 1" cs] by simp
  qed
  then show ?thesis by (simp only: rmatch_seqs_Cons append_Cons append_Nil)
qed

lemma header_tail3:
  assumes "loc \<noteq> []" "\<forall>c\<in>set loc. \<not> isLineTerminator c" "\<not> isWhiteSpace (hd loc)"
    and "locType = [ch_interior] \<or> locType = [ch_exterior]"
  shows "rmatch (seqs [Group 4 (alts [Lit [ch_interior], Lit [ch_exterior]]),
                       Plus Space, Group 5 (Plus Dot), Eol]) (kf i0) i
           (locType @ ch_space # loc) cs =
         Some \<lparr>m_index = i0, m_end = i + length locType + 1 + length loc,
               m_groups = cs(4 \<mapsto> locType, 5 \<mapsto> loc)\<rparr>"
proof -
  let ?k = "rmatch (seqs [Plus Space, Group 5 (Plus Dot), Eol]) (kf i0)"
  have k: "?k (Suc i) (ch_space # loc) (cs(4 \<mapsto> locType)) =
      Some \<lparr>m_index = i0, m_end = Suc i + 1 + length loc, m_groups = cs(4 \<mapsto> locType, 5 \<mapsto> loc)\<rparr>"
    by (rule header_tail4 [OF assms(1-3)])
  have "rmatch (Group 4 (alts [Lit [ch_interior], Lit [ch_exterior]])) ?k i
           (locType @ ch_space # loc) cs =
         Some \<lparr>m_index = i0, m_end = i + length locType + 1 + length loc,
               m_groups = cs(4 \<mapsto> locType, 5 \<mapsto> loc)\<rparr>"
    using assms(4) k by auto
  then show ?thesis by (simp only: rmatch_seqs_Cons)
qed


lemma not_ws_loc_chars: "\<not> isWhiteSpace ch_interior" "\<not> isWhiteSpace ch_exterior"
  by (simp_all add: isWhiteSpace_def)

lemma not_ws_time_chars:
  "\<not> isWhiteSpace ch_day" "\<not> isWhiteSpace ch_night" "\<not> isWhiteSpace ch_rain"
  "\<not> isWhiteSpace ch_snow"
  by (simp_all add: isWhiteSpace_def)

lemma header_tail2:
  assumes "loc \<noteq> []" "\<forall>c\<in>set loc. \<not> isLineTerminator c" "\<not> isWhiteSpace (hd loc)"
    and "locType = [ch_interior] \<or> locType = [ch_exterior]"
  shows "rmatch (seqs [Plus Space, Group 4 (alts [Lit [ch_interior], Lit [ch_exterior]]),
                       Plus Space, Group 5 (Plus Dot), Eol]) (kf i0) i
           (ch_space # locType @ ch_space # loc) cs =
         Some \<lparr>m_index = i0, m_end = i + 1 + length locType + 1 + length loc,
               m_groups = cs(4 \<mapsto> locType, 5 \<mapsto> loc)\<rparr>"
proof -
  let ?k = "rmatch (seqs [Group 4 (alts [Lit [ch_interior], Lit [ch_exterior]]),
                       Plus Space, Group 5 (Plus Dot), Eol]) (kf i0)"
  let ?res = "\<lparr>m_index = i0, m_end = i + 1 + length locType + 1 + length loc,
               m_groups = cs(4 \<mapsto> locType, 5 \<mapsto> loc)\<rparr>"
  have "rmatch (Plus Space) ?k i ([ch_space] @ (locType @ ch_space # loc)) cs = Some ?res"
  proof (rule rmatch_Plus_all)
    show "[ch_space] \<noteq> []" by simp
    show "\<forall>x\<in>set [ch_space]. in_cclass Space x" by (simp add: isWhiteSpace_space)
    show "locType @ ch_space # loc = [] \<or> \<not> in_cclass Space (hd (locType @ ch_space # loc))"
      using assms(4) by (auto simp: not_ws_loc_chars)
    show "?k (i + length [ch_space]) (locType @ ch_space # loc) cs = Some ?res"
      using header_tail3 [OF assms, of i0 "i + 1" cs] by simp
  qed
  then show ?thesis by (simp only: rmatch_seqs_Cons append_Cons append_Nil)
qed

lemma first_match_unique:
  assumes "\<forall>c\<in>set a. \<not> P c" "\<forall>c\<in>set b. \<not> P c" "P x" "P y" "a @ x # r1 = b @ y # r2"
  shows "a = b \<and> r1 = r2"
  using assms
proof (induction a arbitrary: b)
  case Nil
  then show ?case by (cases b) auto
next
  case (Cons c a)
  then show ?case by (cases b) auto
qed

lemma rmatch_Alt_either:
  assumes "rmatch a k i xs cs = None \<or> rmatch a k i xs cs = Some r"
    and "rmatch b k i xs cs = Some r"
  shows "rmatch (Alt a b) k i xs cs = Some r"
  using assms by auto

lemma rmatch_Lit_word:
  assumes s: "\<forall>c\<in>set s. \<not> isWhiteSpace c"
    and tm: "\<forall>c\<in>set tm. \<not> isWhiteSpace c"
    and k: "\<forall>j ys cs' r'. k j ys cs' = Some r' \<longrightarrow> ys \<noteq> [] \<and> isWhiteSpace (hd ys)"
    and ok: "k (i + length tm) (ch_space # rest) cs = Some r"
  shows "rmatch (Lit s) k i (tm @ ch_space # rest) cs = None
       \<or> rmatch (Lit s) k i (tm @ ch_space # rest) cs = Some r"
proof (cases "rmatch (Lit s) k i (tm @ ch_space # rest) cs")
  case None
  then show ?thesis by simp
next
  case (Some r')
  then have "matchLit s k i (tm @ ch_space # rest) cs = Some r'" by simp
  from matchLit_Some [OF this] obtain ys where
    ys: "tm @ ch_space # rest = s @ ys" and r': "k (i + length s) ys cs = Some r'" by blast
  from k r' have "ys \<noteq> [] \<and> isWhiteSpace (hd ys)" by blast
  then obtain y ys' where y: "ys = y # ys'" "isWhiteSpace y" by (cases ys) auto
  from first_match_unique [OF tm s isWhiteSpace_space y(2)] ys y(1)
  have "tm = s" "rest = ys'" by auto
  with r' y ok have "r' = r"
    using first_match_unique [OF tm s isWhiteSpace_space y(2)] ys by auto
  with Some show ?thesis by simp
qed

lemma header_tail1:
  assumes tm: "tm \<noteq> []" "\<forall>c\<in>set tm. \<not> isWhiteSpace c"
    and k: "\<forall>j ys cs' r'. k j ys cs' = Some r' \<longrightarrow> ys \<noteq> [] \<and> isWhiteSpace (hd ys)"
    and ok: "k (i + length tm) (ch_space # rest) (cs(3 \<mapsto> tm)) = Some r"
  shows "rmatch (Group 3 (alts [Lit [ch_day], Lit [ch_night], Lit [ch_rain, ch_night],
                                Lit [ch_snow, ch_night], Plus NonSpace]))
           k i (tm @ ch_space # rest) cs = Some r"
proof -
  let ?xs = "tm @ ch_space # rest"
  define k' where "k' = (\<lambda>j ys cs'. k j ys (cs'(3 \<mapsto> take (j - i) ?xs)))"
  have k': "\<forall>j ys cs' r'. k' j ys cs' = Some r' \<longrightarrow> ys \<noteq> [] \<and> isWhiteSpace (hd ys)"
    unfolding k'_def using k by blast
  have ok': "k' (i + length tm) (ch_space # rest) cs = Some r"
    unfolding k'_def using ok by simp
  have l: "rmatch (Lit s) k' i ?xs cs = None \<or> rmatch (Lit s) k' i ?xs cs = Some r"
    if "\<forall>c\<in>set s. \<not> isWhiteSpace c" for s
    using rmatch_Lit_word [where k = k' and s = s and tm = tm and i = i and rest = rest
        and cs = cs and r = r, OF that tm(2) k' ok'] by blast
  have p: "rmatch (Plus NonSpace) k' i ?xs cs = Some r"
  proof (rule rmatch_Plus_all)
    show "tm \<noteq> []" by (rule tm(1))
    show "\<forall>x\<in>set tm. in_cclass NonSpace x" using tm(2) by simp
    show "ch_space # rest = [] \<or> \<not> in_cclass NonSpace (hd (ch_space # rest))"
      by (simp add: isWhiteSpace_space)
    show "k' (i + length tm) (ch_space # rest) cs = Some r" by (rule ok')
  qed
  have "rmatch (alts [Lit [ch_day], Lit [ch_night], Lit [ch_rain, ch_night],
                      Lit [ch_snow, ch_night], Plus NonSpace]) k' i ?xs cs = Some r"
    unfolding alts.simps
    by (intro rmatch_Alt_either l p) (simp_all add: not_ws_time_chars)
  then show ?thesis unfolding k'_def by (simp only: rmatch.simps(10))
qed


lemma rmatch_Bol_0: "rmatch Bol k 0 xs cs = k 0 xs cs"
  by simp

lemma rmatch_seqs_step:
  "rmatch r (rmatch (seqs (r' # rs)) k) i xs cs = Some res \<Longrightarrow>
   rmatch (seqs (r # r' # rs)) k i xs cs = Some res"
  by simp

lemma SCENE_HEADER_REGEX_match:
  assumes a: "a \<noteq> []" "\<forall>c\<in>set a. isDigit c"
    and b: "b \<noteq> []" "\<forall>c\<in>set b. isDigit c"
    and tm: "tm \<noteq> []" "\<forall>c\<in>set tm. \<not> isWhiteSpace c"
    and lt: "locType = [ch_interior] \<or> locType = [ch_exterior]"
    and loc: "loc \<noteq> []" "\<forall>c\<in>set loc. \<not> isLineTerminator c" "\<not> isWhiteSpace (hd loc)"
  shows "jsMatch SCENE_HEADER_REGEX
           (a @ ch_hyphen # b @ ch_space # tm @ ch_space # locType @ ch_space # loc) =
         Some \<lparr>m_index = 0,
               m_end = length a + 1 + length b + 1 + length tm + 1 + length locType + 1
                         + length loc,
               m_groups = [1 \<mapsto> a, 2 \<mapsto> b, 3 \<mapsto> tm, 4 \<mapsto> locType, 5 \<mapsto> loc]\<rparr>"
proof -
  let ?t2 = "[Plus Space, Group 4 (alts [Lit [ch_interior], Lit [ch_exterior]]),
              Plus Space, Group 5 (Plus Dot), Eol]"
  let ?g3 = "Group 3 (alts [Lit [ch_day], Lit [ch_night], Lit [ch_rain, ch_night],
                             Lit [ch_snow, ch_night], Plus NonSpace])"
  let ?t1 = "?g3 # ?t2"
  let ?t0 = "Plus Space # ?t1"
  let ?tb = "Group 2 (Plus Digit) # ?t0"
  let ?th = "Lit [ch_hyphen] # ?tb"
  let ?ta = "Group 1 (Plus Digit) # ?th"
  let ?x2 = "ch_space # locType @ ch_space # loc"
  let ?x1 = "tm @ ?x2"
  let ?x0 = "ch_space # ?x1"
  let ?xb = "b @ ?x0"
  let ?xh = "ch_hyphen # ?xb"
  let ?xa = "a @ ?xh"
  let ?n2 = "1 + length locType + 1 + length loc"
  let ?n1 = "length tm + ?n2"
  let ?n0 = "1 + ?n1"
  let ?nb = "length b + ?n0"
  let ?nh = "1 + ?nb"
  let ?na = "length a + ?nh"
  have k2: "\<forall>j ys cs' r'. rmatch (seqs ?t2) (kf 0) j ys cs' = Some r'
              \<longrightarrow> ys \<noteq> [] \<and> isWhiteSpace (hd ys)"
  proof (intro allI impI)
    fix j ys cs' r'
    assume "rmatch (seqs ?t2) (kf 0) j ys cs' = Some r'"
    then have "matchOne (in_cclass Space)
        (matchMany (in_cclass Space) (rmatch (seqs (tl ?t2)) (kf 0))) j ys cs' = Some r'"
      by (simp only: rmatch_seqs_Cons rmatch.simps(6) list.sel)
    from matchOne_Some [OF this] show "ys \<noteq> [] \<and> isWhiteSpace (hd ys)" by auto
  qed
  have s1: "rmatch (seqs ?t1) (kf 0) i ?x1 cs =
      Some \<lparr>m_index = 0, m_end = i + ?n1, m_groups = cs(3 \<mapsto> tm, 4 \<mapsto> locType, 5 \<mapsto> loc)\<rparr>"
    for i cs
  proof (rule rmatch_seqs_step, rule header_tail1 [OF tm k2])
    show "rmatch (seqs ?t2) (kf 0) (i + length tm) ?x2 (cs(3 \<mapsto> tm)) =
      Some \<lparr>m_index = 0, m_end = i + ?n1, m_groups = cs(3 \<mapsto> tm, 4 \<mapsto> locType, 5 \<mapsto> loc)\<rparr>"
      using header_tail2 [OF loc lt, of 0 "i + length tm" "cs(3 \<mapsto> tm)"]
      by (simp add: add.assoc)
  qed
  have s0: "rmatch (seqs ?t0) (kf 0) i ?x0 cs =
      Some \<lparr>m_index = 0, m_end = i + ?n0, m_groups = cs(3 \<mapsto> tm, 4 \<mapsto> locType, 5 \<mapsto> loc)\<rparr>"
    for i cs
  proof -
    have "rmatch (Plus Space) (rmatch (seqs ?t1) (kf 0)) i ([ch_space] @ ?x1) cs =
      Some \<lparr>m_index = 0, m_end = i + ?n0, m_groups = cs(3 \<mapsto> tm, 4 \<mapsto> locType, 5 \<mapsto> loc)\<rparr>"
    proof (rule rmatch_Plus_all)
      show "[ch_space] \<noteq> []" by simp
      show "\<forall>x\<in>set [ch_space]. in_cclass Space x" by (simp add: isWhiteSpace_space)
      show "?x1 = [] \<or> \<not> in_cclass Space (hd ?x1)" using tm by (cases tm) auto
      show "rmatch (seqs ?t1) (kf 0) (i + length [ch_space]) ?x1 cs =
        Some \<lparr>m_index = 0, m_end = i + ?n0, m_groups = cs(3 \<mapsto> tm, 4 \<mapsto> locType, 5 \<mapsto> loc)\<rparr>"
        using s1 [of "i + 1" cs] by (simp add: add.assoc)
    qed
    then show ?thesis by (simp only: rmatch_seqs_Cons append_Cons append_Nil)
  qed
  have sb: "rmatch (seqs ?tb) (kf 0) i ?xb cs =
      Some \<lparr>m_index = 0, m_end = i + ?nb,
            m_groups = cs(2 \<mapsto> b, 3 \<mapsto> tm, 4 \<mapsto> locType, 5 \<mapsto> loc)\<rparr>"
    for i cs
  proof (rule rmatch_seqs_step, rule rmatch_Group_Plus_all)
    show "b \<noteq> []" by (rule b(1))
    show "\<forall>x\<in>set b. in_cclass Digit x" using b(2) by simp
    show "?x0 = [] \<or> \<not> in_cclass Digit (hd ?x0)"
      by (simp add: space_not_digit isWhiteSpace_space)
    show "rmatch (seqs ?t0) (kf 0) (i + length b) ?x0 (cs(2 \<mapsto> b)) =
      Some \<lparr>m_index = 0, m_end = i + ?nb,
            m_groups = cs(2 \<mapsto> b, 3 \<mapsto> tm, 4 \<mapsto> locType, 5 \<mapsto> loc)\<rparr>"
      using s0 [of "i + length b" "cs(2 \<mapsto> b)"] by (simp add: add.assoc)
  qed
  have sh: "rmatch (seqs ?th) (kf 0) i ?xh cs =
      Some \<lparr>m_index = 0, m_end = i + ?nh,
            m_groups = cs(2 \<mapsto> b, 3 \<mapsto> tm, 4 \<mapsto> locType, 5 \<mapsto> loc)\<rparr>"
    for i cs
  proof (rule rmatch_seqs_step)
    show "rmatch (Lit [ch_hyphen]) (rmatch (seqs ?tb) (kf 0)) i ?xh cs =
      Some \<lparr>m_index = 0, m_end = i + ?nh,
            m_groups = cs(2 \<mapsto> b, 3 \<mapsto> tm, 4 \<mapsto> locType, 5 \<mapsto> loc)\<rparr>"
      using sb [of "Suc i" cs] by (simp add: add.assoc)
  qed
  have sa: "rmatch (seqs ?ta) (kf 0) 0 ?xa Map.empty =
      Some \<lparr>m_index = 0, m_end = ?na,
            m_groups = [1 \<mapsto> a, 2 \<mapsto> b, 3 \<mapsto> tm, 4 \<mapsto> locType, 5 \<mapsto> loc]\<rparr>"
  proof (rule rmatch_seqs_step, rule rmatch_Group_Plus_all)
    show "a \<noteq> []" by (rule a(1))
    show "\<forall>x\<in>set a. in_cclass Digit x" using a(2) by simp
    show "?xh = [] \<or> \<not> in_cclass Digit (hd ?xh)" by (simp add: not_digit_hyphen)
    show "rmatch (seqs ?th) (kf 0) (0 + length a) ?xh [1 \<mapsto> a] =
      Some \<lparr>m_index = 0, m_end = ?na,
            m_groups = [1 \<mapsto> a, 2 \<mapsto> b, 3 \<mapsto> tm, 4 \<mapsto> locType, 5 \<mapsto> loc]\<rparr>"
      using sh [of "length a" "[1 \<mapsto> a]"] by simp
  qed
  have eq: "SCENE_HEADER_REGEX = seqs (Bol # ?ta)" by (simp only: SCENE_HEADER_REGEX_def)
  have "rmatch (seqs (Bol # ?ta)) (kf 0) 0 ?xa Map.empty =
      Some \<lparr>m_index = 0, m_end = ?na,
            m_groups = [1 \<mapsto> a, 2 \<mapsto> b, 3 \<mapsto> tm, 4 \<mapsto> locType, 5 \<mapsto> loc]\<rparr>"
    by (rule rmatch_seqs_step) (simp only: rmatch_Bol_0 sa)
  then have "matchAt SCENE_HEADER_REGEX 0 ?xa =
      Some \<lparr>m_index = 0, m_end = ?na,
            m_groups = [1 \<mapsto> a, 2 \<mapsto> b, 3 \<mapsto> tm, 4 \<mapsto> locType, 5 \<mapsto> loc]\<rparr>"
    unfolding matchAt_def eq .
  then have "jsMatch SCENE_HEADER_REGEX ?xa =
      Some \<lparr>m_index = 0, m_end = ?na,
            m_groups = [1 \<mapsto> a, 2 \<mapsto> b, 3 \<mapsto> tm, 4 \<mapsto> locType, 5 \<mapsto> loc]\<rparr>"
    by (simp add: jsMatch_def execFrom_matchAt)
  then show ?thesis by (simp add: add.assoc)
qed

text \<open>
  The matcher is sound for the words of a pattern: a successful match splits the input
  into a word of the pattern and the rest, on which the continuation succeeded.
\<close>

lemma rmatch_lang:
  "rmatch r k i xs cs = Some res \<Longrightarrow>
   \<exists>w ys cs'. xs = w @ ys \<and> w \<in> lang r \<and> k (i + length w) ys cs' = Some res"
proof (induction r arbitrary: k i xs cs)
  case Bol
  then have "xs = [] @ xs \<and> [] \<in> lang Bol \<and> k (i + length ([] :: jsstring)) xs cs = Some res"
    by (simp split: if_splits)
  then show ?case by blast
next
  case Eol
  then have "xs = [] @ xs \<and> [] \<in> lang Eol \<and> k (i + length ([] :: jsstring)) xs cs = Some res"
    by (simp split: if_splits)
  then show ?case by blast
next
  case (Lit s)
  then have "matchLit s k i xs cs = Some res" by simp
  from matchLit_Some [OF this] obtain ys where "xs = s @ ys" "k (i + length s) ys cs = Some res"
    by blast
  then have "xs = s @ ys \<and> s \<in> lang (Lit s) \<and> k (i + length s) ys cs = Some res" by simp
  then show ?case by blast
next
  case (Cls c)
  then have "matchOne (in_cclass c) k i xs cs = Some res" by simp
  from matchOne_Some [OF this] obtain x ys where
    "xs = x # ys" "in_cclass c x" "k (Suc i) ys cs = Some res" by blast
  then have "xs = [x] @ ys \<and> [x] \<in> lang (Cls c) \<and> k (i + length [x]) ys cs = Some res"
    by simp
  then show ?case by blast
next
  case (Star c)
  then have "matchMany (in_cclass c) k i xs cs = Some res" by simp
  from matchMany_Some [OF this] obtain w ys where
    "xs = w @ ys" "\<forall>x\<in>set w. in_cclass c x" "k (i + length w) ys cs = Some res" by blast
  then have "xs = w @ ys \<and> w \<in> lang (Star c) \<and> k (i + length w) ys cs = Some res" by simp
  then show ?case by blast
next
  case (Plus c)
  then have "matchOne (in_cclass c) (matchMany (in_cclass c) k) i xs cs = Some res" by simp
  from matchOne_Some [OF this] obtain x zs where
    x: "xs = x # zs" "in_cclass c x"
    and "matchMany (in_cclass c) k (Suc i) zs cs = Some res" by blast
  from matchMany_Some [OF this(3)] obtain w ys where
    "zs = w @ ys" "\<forall>x\<in>set w. in_cclass c x" "k (Suc i + length w) ys cs = Some res" by blast
  with x have "xs = (x # w) @ ys \<and> x # w \<in> lang (Plus c)
      \<and> k (i + length (x # w)) ys cs = Some res" by simp
  then show ?case by blast
next
  case (LazyPlus c)
  then have "matchOne (in_cclass c) (matchFew (in_cclass c) k) i xs cs = Some res" by simp
  from matchOne_Some [OF this] obtain x zs where
    x: "xs = x # zs" "in_cclass c x"
    and "matchFew (in_cclass c) k (Suc i) zs cs = Some res" by blast
  from matchFew_Some [OF this(3)] obtain w ys where
    "zs = w @ ys" "\<forall>x\<in>set w. in_cclass c x" "k (Suc i + length w) ys cs = Some res" by blast
  with x have "xs = (x # w) @ ys \<and> x # w \<in> lang (LazyPlus c)
      \<and> k (i + length (x # w)) ys cs = Some res" by simp
  then show ?case by blast
next
  case (Seq a b)
  from Seq.prems have "rmatch a (rmatch b k) i xs cs = Some res" by simp
  from Seq.IH(1) [OF this] obtain u zs cs' where
    u: "xs = u @ zs" "u \<in> lang a" and "rmatch b k (i + length u) zs cs' = Some res" by blast
  from Seq.IH(2) [OF this(3)] obtain v ys cs'' where
    "zs = v @ ys" "v \<in> lang b" "k (i + length u + length v) ys cs'' = Some res" by blast
  with u have "xs = (u @ v) @ ys \<and> u @ v \<in> lang (Seq a b)
      \<and> k (i + length (u @ v)) ys cs'' = Some res" by (auto simp: add.assoc)
  then show ?case by blast
next
  case (Alt a b)
  show ?case
  proof (cases "rmatch a k i xs cs")
    case None
    with Alt.prems have "rmatch b k i xs cs = Some res" by simp
    from Alt.IH(2) [OF this] obtain w ys cs' where
      "xs = w @ ys" "w \<in> lang b" "k (i + length w) ys cs' = Some res" by blast
    then have "xs = w @ ys \<and> w \<in> lang (Alt a b) \<and> k (i + length w) ys cs' = Some res"
      by simp
    then show ?thesis by blast
  next
    case (Some r')
    with Alt.prems have "rmatch a k i xs cs = Some res" by simp
    from Alt.IH(1) [OF this] obtain w ys cs' where
      "xs = w @ ys" "w \<in> lang a" "k (i + length w) ys cs' = Some res" by blast
    then have "xs = w @ ys \<and> w \<in> lang (Alt a b) \<and> k (i + length w) ys cs' = Some res"
      by simp
    then show ?thesis by blast
  qed
next
  case (Group n a)
  from Group.prems have
    "rmatch a (\<lambda>j ys cs'. k j ys (cs'(n \<mapsto> take (j - i) xs))) i xs cs = Some res" by simp
  from Group.IH [OF this] obtain w ys cs' where
    "xs = w @ ys" "w \<in> lang a"
    "k (i + length w) ys (cs'(n \<mapsto> take (i + length w - i) xs)) = Some res" by blast
  then have "xs = w @ ys \<and> w \<in> lang (Group n a)
      \<and> k (i + length w) ys (cs'(n \<mapsto> take (i + length w - i) xs)) = Some res" by simp
  then show ?case by blast
qed

lemma rmatch_seqs_lang:
  assumes "rmatch (seqs (r # r' # rs)) k i xs cs = Some res"
  shows "\<exists>w ys j cs'. xs = w @ ys \<and> w \<in> lang r \<and> rmatch (seqs (r' # rs)) k j ys cs' = Some res"
proof -
  from assms have "rmatch r (rmatch (seqs (r' # rs)) k) i xs cs = Some res" by simp
  from rmatch_lang [OF this] show ?thesis by blast
qed

lemma SCENE_HEADER_REGEX_shape:
  assumes "jsMatch SCENE_HEADER_REGEX t = Some m"
  shows "\<exists>a b w1 g w2 k w3 l.
      t = a @ ch_hyphen # b @ w1 @ g @ w2 @ k @ w3 @ l
      \<and> a \<noteq> [] \<and> (\<forall>c\<in>set a. isDigit c) \<and> b \<noteq> [] \<and> (\<forall>c\<in>set b. isDigit c)
      \<and> w1 \<noteq> [] \<and> (\<forall>c\<in>set w1. isWhiteSpace c)
      \<and> g \<noteq> [] \<and> (\<forall>c\<in>set g. \<not> isWhiteSpace c)
      \<and> w2 \<noteq> [] \<and> (\<forall>c\<in>set w2. isWhiteSpace c)
      \<and> (k = [ch_interior] \<or> k = [ch_exterior])
      \<and> w3 \<noteq> [] \<and> (\<forall>c\<in>set w3. isWhiteSpace c)
      \<and> l \<noteq> []"
proof -
  let ?kf = "\<lambda>j (ys :: jsstring) cs. Some \<lparr>m_index = 0 :: nat, m_end = j, m_groups = cs\<rparr>"
  have "\<exists>r. SCENE_HEADER_REGEX = Seq Bol r" by (simp add: SCENE_HEADER_REGEX_def)
  then obtain r where r: "SCENE_HEADER_REGEX = Seq Bol r" ..
  from assms have "matchAt SCENE_HEADER_REGEX 0 t = Some m"
    unfolding r by (simp only: jsMatch_Bol)
  then have m0: "rmatch SCENE_HEADER_REGEX ?kf 0 t Map.empty = Some m"
    by (simp only: matchAt_def)
  from rmatch_seqs_lang [OF m0 [unfolded SCENE_HEADER_REGEX_def]] obtain x1 j1 c1 where
    s1: "rmatch (seqs [Group 1 (Plus Digit), Lit [ch_hyphen], Group 2 (Plus Digit), Plus Space,
           Group 3 (alts [Lit [ch_day], Lit [ch_night], Lit [ch_rain, ch_night],
                          Lit [ch_snow, ch_night], Plus NonSpace]),
           Plus Space,
           Group 4 (alts [Lit [ch_interior], Lit [ch_exterior]]),
           Plus Space,
           Group 5 (Plus Dot), Eol]) ?kf j1 t c1 = Some m"
    by auto
  from rmatch_seqs_lang [OF s1] obtain a x2 j2 c2 where
    a: "t = a @ x2" "a \<in> lang (Group 1 (Plus Digit))" and
    s2: "rmatch (seqs [Lit [ch_hyphen], Group 2 (Plus Digit), Plus Space,
           Group 3 (alts [Lit [ch_day], Lit [ch_night], Lit [ch_rain, ch_night],
                          Lit [ch_snow, ch_night], Plus NonSpace]),
           Plus Space,
           Group 4 (alts [Lit [ch_interior], Lit [ch_exterior]]),
           Plus Space,
           Group 5 (Plus Dot), Eol]) ?kf j2 x2 c2 = Some m"
    by blast
  from rmatch_seqs_lang [OF s2] obtain h x3 j3 c3 where
    h: "x2 = h @ x3" "h \<in> lang (Lit [ch_hyphen])" and
    s3: "rmatch (seqs [Group 2 (Plus Digit), Plus Space,
           Group 3 (alts [Lit [ch_day], Lit [ch_night], Lit [ch_rain, ch_night],
                          Lit [ch_snow, ch_night], Plus NonSpace]),
           Plus Space,
           Group 4 (alts [Lit [ch_interior], Lit [ch_exterior]]),
           Plus Space,
           Group 5 (Plus Dot), Eol]) ?kf j3 x3 c3 = Some m"
    by blast
  from rmatch_seqs_lang [OF s3] obtain b x4 j4 c4 where
    b: "x3 = b @ x4" "b \<in> lang (Group 2 (Plus Digit))" and
    s4: "rmatch (seqs [Plus Space,
           Group 3 (alts [Lit [ch_day], Lit [ch_night], Lit [ch_rain, ch_night],
                          Lit [ch_snow, ch_night], Plus NonSpace]),
           Plus Space,
           Group 4 (alts [Lit [ch_interior], Lit [ch_exterior]]),
           Plus Space,
           Group 5 (Plus Dot), Eol]) ?kf j4 x4 c4 = Some m"
    by blast
  from rmatch_seqs_lang [OF s4] obtain w1 x5 j5 c5 where
    w1: "x4 = w1 @ x5" "w1 \<in> lang (Plus Space)" and
    s5: "rmatch (seqs [
           Group 3 (alts [Lit [ch_day], Lit [ch_night], Lit [ch_rain, ch_night],
                          Lit [ch_snow, ch_night], Plus NonSpace]),
           Plus Space,
           Group 4 (alts [Lit [ch_interior], Lit [ch_exterior]]),
           Plus Space,
           Group 5 (Plus Dot), Eol]) ?kf j5 x5 c5 = Some m"
    by blast
  from rmatch_seqs_lang [OF s5] obtain g x6 j6 c6 where
    g: "x5 = g @ x6" "g \<in> lang (Group 3 (alts [Lit [ch_day], Lit [ch_night], Lit [ch_rain, ch_night],
                          Lit [ch_snow, ch_night], Plus NonSpace]))" and
    s6: "rmatch (seqs [Plus Space,
           Group 4 (alts [Lit [ch_interior], Lit [ch_exterior]]),
           Plus Space,
           Group 5 (Plus Dot), Eol]) ?kf j6 x6 c6 = Some m"
    by blast
  from rmatch_seqs_lang [OF s6] obtain w2 x7 j7 c7 where
    w2: "x6 = w2 @ x7" "w2 \<in> lang (Plus Space)" and
    s7: "rmatch (seqs [
           Group 4 (alts [Lit [ch_interior], Lit [ch_exterior]]),
           Plus Space,
           Group 5 (Plus Dot), Eol]) ?kf j7 x7 c7 = Some m"
    by blast
  from rmatch_seqs_lang [OF s7] obtain k x8 j8 c8 where
    k: "x7 = k @ x8" "k \<in> lang (Group 4 (alts [Lit [ch_interior], Lit [ch_exterior]]))" and
    s8: "rmatch (seqs [Plus Space, Group 5 (Plus Dot), Eol]) ?kf j8 x8 c8 = Some m"
    by blast
  from rmatch_seqs_lang [OF s8] obtain w3 x9 j9 c9 where
    w3: "x8 = w3 @ x9" "w3 \<in> lang (Plus Space)" and
    s9: "rmatch (seqs [Group 5 (Plus Dot), Eol]) ?kf j9 x9 c9 = Some m"
    by blast
  from rmatch_seqs_lang [OF s9] obtain l x10 j10 c10 where
    l: "x9 = l @ x10" "l \<in> lang (Group 5 (Plus Dot))" and
    s10: "rmatch (seqs [Eol]) ?kf j10 x10 c10 = Some m"
    by blast
  from s10 have e: "x10 = []" by (simp split: if_splits)
  have t: "t = a @ ch_hyphen # b @ w1 @ g @ w2 @ k @ w3 @ l"
    using a(1) h b(1) w1(1) g(1) w2(1) k(1) w3(1) l(1) e by simp
  have aa: "a \<noteq> [] \<and> (\<forall>c\<in>set a. isDigit c)" using a(2) by simp
  have bb: "b \<noteq> [] \<and> (\<forall>c\<in>set b. isDigit c)" using b(2) by simp
  have ww1: "w1 \<noteq> [] \<and> (\<forall>c\<in>set w1. isWhiteSpace c)" using w1(2) by simp
  have ww2: "w2 \<noteq> [] \<and> (\<forall>c\<in>set w2. isWhiteSpace c)" using w2(2) by simp
  have ww3: "w3 \<noteq> [] \<and> (\<forall>c\<in>set w3. isWhiteSpace c)" using w3(2) by simp
  have ll: "l \<noteq> []" using l(2) by simp
  from g(2) have "g = [ch_day] \<or> g = [ch_night] \<or> g = [ch_rain, ch_night]
      \<or> g = [ch_snow, ch_night] \<or> (g \<noteq> [] \<and> (\<forall>c\<in>set g. \<not> isWhiteSpace c))"
    by simp blast
  then have gg: "g \<noteq> [] \<and> (\<forall>c\<in>set g. \<not> isWhiteSpace c)"
    by (elim disjE) (simp_all add: not_ws_time_chars)
  from k(2) have kk: "k = [ch_interior] \<or> k = [ch_exterior]" by simp blast
  from t aa bb ww1 gg ww2 kk ww3 ll show ?thesis by blast
qed

text \<open>A line that is only a number pair, with white space around it or not.\<close>

lemma validate_bare_number:
  assumes a: "a \<noteq> []" "\<forall>c\<in>set a. isDigit c"
    and b: "b \<noteq> []" "\<forall>c\<in>set b. isDigit c"
    and w: "\<forall>c\<in>set w1. isWhiteSpace c" "\<forall>c\<in>set w2. isWhiteSpace c"
  shows "validateSceneHeader (w1 @ (a @ ch_hyphen # b) @ w2) =
         \<lparr>valid = False,
          errors = [\<lparr>position = length a + 1 + length b, message = MSG_NO_FIELDS\<rparr>]\<rparr>"
proof -
  let ?core = "a @ ch_hyphen # b"
  from a have hd: "\<not> isWhiteSpace (hd ?core)"
    by (cases a) (auto simp: digit_not_space)
  from b have lst: "\<not> isWhiteSpace (last ?core)"
    by (auto simp: digit_not_space)
  have t: "trim (w1 @ ?core @ w2) = ?core"
    using hd lst w by (intro trim_padded) auto
  have m: "jsMatch SCENE_NUMBER_REGEX ?core =
      Some \<lparr>m_index = 0, m_end = length a + 1 + length b, m_groups = [1 \<mapsto> a, 2 \<mapsto> b]\<rparr>"
    using SCENE_NUMBER_REGEX_match [OF a b, of "[]"] by simp
  show ?thesis
    unfolding validateSceneHeader_def t
    by (simp add: m matched_def substringFrom_def trim_def Let_def)
qed

text \<open>
  The staged validator on a line that the full pattern matches: the match fixes the shape
  of the trimmed line, and on that shape every staged check passes.
\<close>

lemma trim_ends:
  assumes "trim s \<noteq> []"
  shows "\<not> isWhiteSpace (hd (trim s))" and "\<not> isWhiteSpace (last (trim s))"
proof -
  let ?d = "dropWhile isWhiteSpace s"
  let ?e = "dropWhile isWhiteSpace (rev ?d)"
  from assms have e: "?e \<noteq> []" by (simp only: trim_def rev_is_Nil_conv not_False_eq_True)
  then have he: "\<not> isWhiteSpace (hd ?e)" by (rule hd_dropWhile)
  have "last (trim s) = hd ?e" using e by (simp only: trim_def last_rev)
  with he show "\<not> isWhiteSpace (last (trim s))" by simp
  have d: "?d \<noteq> []"
  proof
    assume "?d = []"
    then have "?e = []" by (simp only: rev.simps dropWhile.simps)
    with e show False by blast
  qed
  then have hd: "\<not> isWhiteSpace (hd ?d)" by (rule hd_dropWhile)
  have "rev (takeWhile isWhiteSpace (rev ?d) @ ?e) = ?d"
    by (simp only: takeWhile_dropWhile_id rev_rev_ident)
  then have "rev ?e @ rev (takeWhile isWhiteSpace (rev ?d)) = ?d"
    by (simp only: rev_append)
  then have eq: "hd ?d = hd (rev ?e @ rev (takeWhile isWhiteSpace (rev ?d)))"
    by (rule arg_cong [where f = hd, OF sym])
  have "hd (rev ?e @ rev (takeWhile isWhiteSpace (rev ?d))) = hd (rev ?e)"
    using e by (simp only: hd_append2 rev_is_Nil_conv not_False_eq_True)
  with eq have "hd (trim s) = hd ?d" by (simp only: trim_def)
  with hd show "\<not> isWhiteSpace (hd (trim s))" by simp
qed

lemma splitWs_nonempty: "splitWs xs \<noteq> []"
proof (induction xs)
  case Nil
  show ?case by simp
next
  case (Cons c cs)
  show ?case
  proof (cases "isWhiteSpace c")
    case True
    show ?thesis
    proof (cases cs)
      case Nil
      with True show ?thesis by simp
    next
      case (Cons d ds)
      show ?thesis
      proof (cases "isWhiteSpace d")
        case d: True
        have "splitWs (c # cs) = splitWs cs"
          using True d unfolding Cons by (subst splitWs.simps(2)) simp
        with Cons.IH show ?thesis by metis
      next
        case d: False
        have "splitWs (c # cs) = [] # splitWs cs"
          using True d unfolding Cons by (subst splitWs.simps(2)) simp
        then show ?thesis by (metis list.distinct(1))
      qed
    qed
  next
    case False
    then show ?thesis by (cases "splitWs cs") simp_all
  qed
qed

lemma splitWs_space_run:
  assumes "w \<noteq> []" "\<forall>c\<in>set w. isWhiteSpace c" "rest \<noteq> []" "\<not> isWhiteSpace (hd rest)"
  shows "splitWs (w @ rest) = [] # splitWs rest"
  using assms
proof (induction w)
  case Nil
  then show ?case by simp
next
  case (Cons x w)
  show ?case
  proof (cases w)
    case Nil
    with Cons.prems show ?thesis by (cases rest) auto
  next
    case (Cons y w')
    with Cons.prems Cons.IH have "splitWs (w @ rest) = [] # splitWs rest" by simp
    with Cons Cons.prems show ?thesis by simp
  qed
qed

lemma splitWs_word:
  assumes "g \<noteq> []" "\<forall>c\<in>set g. \<not> isWhiteSpace c"
    and "w \<noteq> []" "\<forall>c\<in>set w. isWhiteSpace c" "rest \<noteq> []" "\<not> isWhiteSpace (hd rest)"
  shows "splitWs (g @ w @ rest) = g # splitWs rest"
  using assms(1,2)
proof (induction g)
  case Nil
  then show ?case by simp
next
  case (Cons c g)
  show ?case
  proof (cases g)
    case Nil
    with Cons.prems splitWs_space_run [OF assms(3-6)] show ?thesis by simp
  next
    case (Cons d g')
    with Cons.prems Cons.IH have "splitWs (g @ w @ rest) = g # splitWs rest" by simp
    with Cons.prems show ?thesis by simp
  qed
qed


lemma dropWhile_last_nonempty:
  assumes "l \<noteq> []" "\<not> P (last l)"
  shows "dropWhile P l \<noteq> []" and "last (dropWhile P l) = last l"
proof -
  from assms have "last l \<in> set l" "\<not> P (last l)" by simp_all
  then show ne: "dropWhile P l \<noteq> []" by (auto simp: dropWhile_eq_Nil_conv)
  have "l = takeWhile P l @ dropWhile P l" by simp
  then have "last l = last (takeWhile P l @ dropWhile P l)" by simp
  also have "\<dots> = last (dropWhile P l)" using ne by (rule last_appendR)
  finally show "last (dropWhile P l) = last l" by simp
qed

lemma validate_of_full_match:
  assumes "jsMatch SCENE_HEADER_REGEX (trim str) = Some m"
  shows "validateSceneHeader str = \<lparr>valid = True, errors = []\<rparr>"
proof -
  from SCENE_HEADER_REGEX_shape [OF assms] obtain a b w1 g w2 k w3 l where
    t: "trim str = a @ ch_hyphen # b @ w1 @ g @ w2 @ k @ w3 @ l"
    and a: "a \<noteq> []" "\<forall>c\<in>set a. isDigit c"
    and b: "b \<noteq> []" "\<forall>c\<in>set b. isDigit c"
    and w1: "w1 \<noteq> []" "\<forall>c\<in>set w1. isWhiteSpace c"
    and g: "g \<noteq> []" "\<forall>c\<in>set g. \<not> isWhiteSpace c"
    and w2: "w2 \<noteq> []" "\<forall>c\<in>set w2. isWhiteSpace c"
    and k: "k = [ch_interior] \<or> k = [ch_exterior]"
    and w3: "w3 \<noteq> []" "\<forall>c\<in>set w3. isWhiteSpace c"
    and l: "l \<noteq> []"
    by blast
  have ne: "trim str \<noteq> []" using t a by simp
  have "last (trim str) = last l" using l by (simp add: t)
  with trim_ends(2) [OF ne] have ll: "\<not> isWhiteSpace (last l)" by simp
  define l' where "l' = dropWhile isWhiteSpace l"
  define w3' where "w3' = w3 @ takeWhile isWhiteSpace l"
  have l': "l' \<noteq> []" "\<not> isWhiteSpace (hd l')" "\<not> isWhiteSpace (last l')"
    using dropWhile_last_nonempty [where P = isWhiteSpace, OF l ll]
      hd_dropWhile [of isWhiteSpace l] ll
    by (simp_all add: l'_def)
  have w3': "w3' \<noteq> []" "\<forall>c\<in>set w3'. isWhiteSpace c"
    using w3 by (auto simp: w3'_def dest: set_takeWhileD)
  have split: "w3 @ l = w3' @ l'" by (simp add: w3'_def l'_def)
  define tail where "tail = g @ w2 @ k @ w3' @ l'"
  have t': "trim str = (a @ ch_hyphen # b) @ w1 @ tail"
    using t split by (simp add: tail_def)
  define n where "n = length a + 1 + length b"
  define mres where
    "mres = \<lparr>m_index = 0, m_end = length a + 1 + length b, m_groups = [1 \<mapsto> a, 2 \<mapsto> b]\<rparr>"
  have nm: "jsMatch SCENE_NUMBER_REGEX (trim str) = Some mres"
  proof -
    have "jsMatch SCENE_NUMBER_REGEX (a @ ch_hyphen # b @ (w1 @ tail)) = Some mres"
      unfolding mres_def
      using a b w1 by (intro SCENE_NUMBER_REGEX_match) (cases w1, auto simp: space_not_digit)
    then show ?thesis by (simp add: t')
  qed
  have len: "length (matched (trim str) mres) = n"
    by (simp add: matched_def t' mres_def n_def)
  have rest: "substringFrom (trim str) n = w1 @ tail"
    by (simp add: substringFrom_def t' n_def)
  have hd_tail: "\<not> isWhiteSpace (hd tail)" using g by (cases g) (auto simp: tail_def)
  have last_tail: "\<not> isWhiteSpace (last tail)" using l' by (simp add: tail_def)
  have tail_ne: "tail \<noteq> []" using g by (simp add: tail_def)
  have after: "trim (w1 @ tail) = tail"
    using trim_padded [OF tail_ne hd_tail last_tail w1(2), of "[]"] by simp
  have hk: "k @ w3' @ l' \<noteq> []" "\<not> isWhiteSpace (hd (k @ w3' @ l'))"
    using k by (auto simp: not_ws_loc_chars)
  have kws: "k \<noteq> []" "\<forall>c\<in>set k. \<not> isWhiteSpace c"
    using k by (auto simp: not_ws_loc_chars)
  have p1: "splitWs tail = g # splitWs (k @ w3' @ l')"
    unfolding tail_def by (rule splitWs_word [OF g w2 hk])
  have p2: "splitWs (k @ w3' @ l') = k # splitWs l'"
    by (rule splitWs_word [OF kws w3' l'(1,2)])
  obtain p ps where p3: "splitWs l' = p # ps"
    using splitWs_nonempty [of l'] by (cases "splitWs l'") auto
  have parts: "splitWs tail = g # k # p # ps" by (simp only: p1 p2 p3)
  have kin: "k \<in> set LOCATION_TYPES" using k by (auto simp: LOCATION_TYPES_def)
  show ?thesis
    unfolding validateSceneHeader_def
    using ne g(1) tail_ne kin
    by (simp add: nm len rest after parts assms Let_def)
qed

lemma validate_valid_iff:
  "valid (validateSceneHeader str) \<longleftrightarrow> jsMatch SCENE_HEADER_REGEX (trim str) \<noteq> None"
proof
  assume "valid (validateSceneHeader str)"
  then show "jsMatch SCENE_HEADER_REGEX (trim str) \<noteq> None"
    unfolding validateSceneHeader_def
    by (auto simp: Let_def split: if_splits option.splits)
next
  assume "jsMatch SCENE_HEADER_REGEX (trim str) \<noteq> None"
  then obtain m where "jsMatch SCENE_HEADER_REGEX (trim str) = Some m" by blast
  from validate_of_full_match [OF this] show "valid (validateSceneHeader str)" by simp
qed

lemma parseSceneHeader_None_iff:
  "parseSceneHeader str = None \<longleftrightarrow> jsMatch SCENE_HEADER_REGEX (trim str) = None"
  by (simp add: parseSceneHeader_def split: option.splits)

text \<open>What the loop over the scenes finds, and the number pattern read backwards.\<close>

lemma findPrevNext_next:
  "snd (findPrevNext c ss p) = find (\<lambda>s. c < line s) ss"
  by (induction ss arbitrary: p) auto

lemma findPrevNext_prev_Some:
  "\<exists>q. fst (findPrevNext c ss (Some p)) = Some q"
  by (induction ss arbitrary: p) auto

lemma sorted_all_after:
  assumes "sorted (map line (s # ss))" "c < line s"
  shows "\<forall>x\<in>set (s # ss). c < line x"
  using assms by auto


lemma trim_prefix:
  assumes "x \<noteq> []" "\<not> isWhiteSpace (hd x)" "\<not> isWhiteSpace (last x)"
  shows "trim (x @ r) = x @ rev (dropWhile isWhiteSpace (rev r))"
proof -
  from assms(1,2) have a: "dropWhile isWhiteSpace (x @ r) = x @ r" by (cases x) auto
  from assms(1,3) have b: "dropWhile isWhiteSpace (rev x) = rev x"
    by (cases "rev x") (auto simp: last_rev [symmetric] simp del: last_rev)
  have "dropWhile isWhiteSpace (rev r @ rev x) = dropWhile isWhiteSpace (rev r) @ rev x"
    using b by (simp add: dropWhile_append)
  with a show ?thesis by (simp add: trim_def)
qed




text \<open>The scan of the indexer: what a turn of the loop does to the list of scenes.\<close>

lemma markers_no_header:
  "parseSceneHeader FLASHBACK_START = None" "parseSceneHeader FLASHBACK_END = None"
  by (simp_all add: parseSceneHeader_def FLASHBACK_START_def FLASHBACK_END_def
      SCENE_HEADER_REGEX_def jsMatch_def matchAt_def trim_def isWhiteSpace_def isDigit_def)

lemma map_updateLast:
  assumes "\<And>x. g (f x) = g x"
  shows "map g (updateLast f xs) = map g xs"
proof (cases "xs = []")
  case True
  then show ?thesis by (simp add: updateLast_def)
next
  case False
  then have "xs = butlast xs @ [last xs]" by simp
  then have "map g xs = map g (butlast xs) @ [g (last xs)]" by (metis list.simps(8,9) map_append)
  with False assms show ?thesis by (simp add: updateLast_def)
qed

lemma closeScene_lines: "map line (closeScene st) = map line (scanned st)"
  unfolding closeScene_def by (rule map_updateLast) simp

lemma closeScene_numbers:
  "map (\<lambda>s. (episode s, scene s)) (closeScene st) = map (\<lambda>s. (episode s, scene s)) (scanned st)"
  unfolding closeScene_def by (rule map_updateLast) simp

text \<open>One turn of the scan either leaves the scenes' lines and numbers alone or appends
  the scene of the header on the current line.\<close>

lemma scanLine_lines:
  "map line (scanned (scanLine i l st)) = map line (scanned st)
   \<or> map line (scanned (scanLine i l st)) = map line (scanned st) @ [i]"
  unfolding scanLine_def
  by (auto simp: Let_def closeScene_lines map_updateLast split: option.splits)

lemma scanLine_numbers:
  "map (\<lambda>s. (episode s, scene s)) (scanned (scanLine i l st)) =
   map (\<lambda>s. (episode s, scene s)) (scanned st)
     @ (case parseSceneHeader (trim l) of None \<Rightarrow> [] | Some h \<Rightarrow> [(episode h, scene h)])"
  unfolding scanLine_def
  by (auto simp: Let_def closeScene_numbers map_updateLast markers_no_header
      split: option.splits)

lemma scanLines_numbers:
  "map (\<lambda>s. (episode s, scene s)) (scanned (scanLines i ls st)) =
   map (\<lambda>s. (episode s, scene s)) (scanned st) @ headerNumbers ls"
proof (induction ls arbitrary: i st)
  case Nil
  show ?case by (simp add: headerNumbers_def)
next
  case (Cons l ls)
  show ?case
    using Cons.IH [of "Suc i" "scanLine i l st"] scanLine_numbers [of i l st]
    by (simp add: headerNumbers_def)
qed

lemma scanLines_lines:
  assumes "sorted_wrt (<) (map line (scanned st))" "\<forall>x\<in>set (scanned st). line x < i"
  shows "sorted_wrt (<) (map line (scanned (scanLines i ls st)))"
  using assms
proof (induction ls arbitrary: i st)
  case Nil
  then show ?case by simp
next
  case (Cons l ls)
  let ?st = "scanLine i l st"
  from scanLine_lines [of i l st]
  have s: "sorted_wrt (<) (map line (scanned ?st))" and b: "\<forall>x\<in>set (map line (scanned ?st)). x < Suc i"
  proof -
    from Cons.prems(2) have lt: "\<forall>x\<in>set (map line (scanned st)). x < i" by simp
    from scanLine_lines [of i l st] show "sorted_wrt (<) (map line (scanned ?st))"
    proof
      assume "map line (scanned ?st) = map line (scanned st)"
      with Cons.prems(1) show ?thesis by simp
    next
      assume "map line (scanned ?st) = map line (scanned st) @ [i]"
      with Cons.prems(1) lt show ?thesis by (simp add: sorted_wrt_append)
    qed
    from scanLine_lines [of i l st] show "\<forall>x\<in>set (map line (scanned ?st)). x < Suc i"
    proof
      assume "map line (scanned ?st) = map line (scanned st)"
      with lt show ?thesis by (simp add: less_Suc_eq)
    next
      assume "map line (scanned ?st) = map line (scanned st) @ [i]"
      with lt show ?thesis by (simp add: less_Suc_eq)
    qed
  qed
  from b have "\<forall>x\<in>set (scanned ?st). line x < Suc i" by simp
  from Cons.IH [OF s this] show ?case by simp
qed

lemma parseDocument_fresh:
  "fst (parseDocument this content None now) =
     (let st = scanLines 0 (splitOn ch_newline content) initialScan in
      \<lparr>scenes = (if length (scanned st) > 0 \<and> length (currentSceneContent st) > 0
                  then closeScene st else scanned st),
       episodeCount = maxEpisode st, lastUpdated = now,
       contentHash = calculateHash content\<rparr>)"
  by (simp add: parseDocument_def Let_def)

lemma parseDocument_lines_sorted:
  "sorted_wrt (<) (map line (scenes (fst (parseDocument this content None now))))"
proof -
  have "sorted_wrt (<) (map line (scanned (scanLines 0 (splitOn ch_newline content) initialScan)))"
    by (rule scanLines_lines) (simp_all add: initialScan_def)
  then show ?thesis by (simp add: parseDocument_fresh Let_def closeScene_lines)
qed

lemma parseDocument_numbers:
  "map (\<lambda>s. (episode s, scene s)) (scenes (fst (parseDocument this content None now))) =
   headerNumbers (splitOn ch_newline content)"
  using scanLines_numbers [of 0 "splitOn ch_newline content" initialScan]
  by (simp add: parseDocument_fresh Let_def closeScene_numbers initialScan_def)

text \<open>Content word counting on a cast line and on a dialogue line.\<close>

lemma splitOn_no_sep: "sep \<notin> set xs \<Longrightarrow> splitOn sep xs = [xs]"
  by (induction xs) auto

lemma not_ws_person: "\<not> isWhiteSpace ch_person"
  by (simp add: isWhiteSpace_def)

lemma not_digit_person: "\<not> isDigit ch_person"
  by (simp add: isDigit_def)

lemma no_number_person: "\<not> jsTest SCENE_NUMBER_REGEX (ch_person # xs)"
  by (simp add: jsTest_def jsMatch_def SCENE_NUMBER_REGEX_def matchAt_def not_digit_person
      execFrom_Bol_later)

lemma trim_cast_line:
  assumes "\<exists>c\<in>set names. \<not> isWhiteSpace c"
  shows "trim (ch_person # ch_space # names) =
         ch_person # ch_space # rev (dropWhile isWhiteSpace (rev names))"
proof -
  from assms have "\<exists>c\<in>set (rev names). \<not> isWhiteSpace c" by simp
  then have "dropWhile isWhiteSpace (rev names @ [ch_space]) =
      dropWhile isWhiteSpace (rev names) @ [ch_space]"
    by (auto simp: dropWhile_append)
  then have "rev (dropWhile isWhiteSpace (rev (ch_space # names))) =
      ch_space # rev (dropWhile isWhiteSpace (rev names))" by simp
  moreover have "trim ([ch_person] @ (ch_space # names)) =
      [ch_person] @ rev (dropWhile isWhiteSpace (rev (ch_space # names)))"
    by (rule trim_prefix) (simp_all add: not_ws_person)
  ultimately show ?thesis by simp
qed

lemma cast_line_no_words:
  assumes "ch_newline \<notin> set names" "\<exists>c\<in>set names. \<not> isWhiteSpace c"
  shows "countContentWords ([ch_person, ch_space] @ names) = 0"
proof -
  have "contentWordsOfLine (ch_person # ch_space # names) = 0"
    unfolding contentWordsOfLine_def trim_cast_line [OF assms(2)]
    by (simp add: no_number_person startsWith_def)
  moreover have "splitOn ch_newline (ch_person # ch_space # names) = [ch_person # ch_space # names]"
    using assms(1) by (intro splitOn_no_sep) simp
  ultimately show ?thesis by (simp add: countContentWords_def)
qed

lemma dialogue_example_match:
  "jsMatch DIALOGUE_REGEX
     [0x5F20, 0x4E09, ch_lparen, 0x7B11, ch_rparen, ch_colon, 0x4F60, 0x597D, 0x4E16, 0x754C] =
   Some \<lparr>m_index = 0, m_end = 10,
         m_groups = [1 \<mapsto> [0x5F20, 0x4E09], 2 \<mapsto> [0x7B11],
                     3 \<mapsto> [0x4F60, 0x597D, 0x4E16, 0x754C]]\<rparr>"
  by (simp add: DIALOGUE_REGEX_def jsMatch_def matchAt_def isLineTerminator_def)

lemma dialogue_example_words:
  "countContentWords
     [0x5F20, 0x4E09, ch_lparen, 0x7B11, ch_rparen, ch_colon, 0x4F60, 0x597D, 0x4E16, 0x754C] = 4"
  by (simp add: countContentWords_def contentWordsOfLine_def trim_def isWhiteSpace_def
      jsTest_def jsMatch_def SCENE_NUMBER_REGEX_def DIALOGUE_REGEX_def matchAt_def isDigit_def
      isLineTerminator_def startsWith_def group_def Stats_countWords_def removeWhiteSpace_def)

lemma dialogue_line_words:
  assumes "trim str \<noteq> []" "\<not> jsTest SCENE_NUMBER_REGEX (trim str)"
    "\<not> startsWith (trim str) [ch_person, ch_space]"
    "trim str \<noteq> [ch_lbracket, 0x95EA, 0x56DE, ch_rbracket]"
    "trim str \<noteq> [ch_lbracket, 0x95EA, 0x56DE, 0x7ED3, 0x675F, ch_rbracket]"
    "\<not> startsWith (trim str) [ch_lbracket, 0x6807, 0x7B7E, ch_colon]"
    "trim str \<noteq> [ch_hyphen, ch_hyphen, ch_hyphen]"
    "\<not> startsWith (trim str) [ch_hash]"
    "jsMatch DIALOGUE_REGEX (trim str) = Some m"
  shows "contentWordsOfLine str = length (removeWhiteSpace (group m 3))"
  using assms by (simp add: contentWordsOfLine_def Stats_countWords_def removeWhiteSpace_def)

section \<open>Properties\<close>

subsection \<open>Duration estimate\<close>

lemma ceiling_rat_div: "\<lceil>(of_int a :: rat) / of_int b\<rceil> = - ((- a) div b)"
  by (metis ceiling_divide_eq_div)

lemma estimateDuration_pos:
  assumes "0 < wc"
  shows "estimateDuration wc = of_int (- ((- wc) div 100)) / 2"
proof -
  have "(of_int wc :: rat) / 200 * 2 = of_int wc / of_int 100" by simp
  then have "\<lceil>(of_int wc :: rat) / 200 * 2\<rceil> = - ((- wc) div 100)"
    by (simp only: ceiling_rat_div)
  with assms show ?thesis
    by (simp add: estimateDuration_def WORDS_PER_MINUTE_def Let_def)
qed

text \<open>
  C7. \<open>estimateDuration\<close> returns 0 for a word count that is not positive; for a
  positive one below \<open>2 ^ 53\<close>, the range in which a number holds every integer and
  the source's arithmetic is exact, it returns the ceiling of twice the quotient by 200,
  halved, which is the least multiple of one half that is not below the quotient: the
  duration rounded up to the nearest half minute. In particular it maps 0 to 0, 50 to
  one half, 200 to 1 and 201 to one and a half.
\<close>

theorem C7_estimateDuration:
  "(wc \<le> 0 \<longrightarrow> estimateDuration wc = 0)
   \<and> (0 < wc \<and> wc < 2 ^ 53 \<longrightarrow>
        estimateDuration wc = of_int \<lceil>(of_int wc :: rat) / 200 * 2\<rceil> / 2
        \<and> (\<exists>k :: int. estimateDuration wc = of_int k / 2
              \<and> of_int wc / 200 \<le> (of_int k :: rat) / 2
              \<and> (of_int k - 1 :: rat) / 2 < of_int wc / 200))
   \<and> estimateDuration 0 = 0
   \<and> estimateDuration 50 = 1 / 2
   \<and> estimateDuration 200 = 1
   \<and> estimateDuration 201 = 3 / 2"
proof -
  have a: "wc \<le> 0 \<longrightarrow> estimateDuration wc = 0"
    by (simp add: estimateDuration_def)
  have b: "estimateDuration wc = of_int \<lceil>(of_int wc :: rat) / 200 * 2\<rceil> / 2" if "0 < wc"
    using that by (simp add: estimateDuration_def WORDS_PER_MINUTE_def Let_def)
  have c: "\<exists>k :: int. estimateDuration wc = of_int k / 2
              \<and> of_int wc / 200 \<le> (of_int k :: rat) / 2
              \<and> (of_int k - 1 :: rat) / 2 < of_int wc / 200" if "0 < wc"
  proof -
    define k where "k = \<lceil>(of_int wc :: rat) / 200 * 2\<rceil>"
    have "(of_int wc :: rat) / 200 * 2 \<le> of_int k" unfolding k_def by (rule le_of_int_ceiling)
    then have up: "of_int wc / 200 \<le> (of_int k :: rat) / 2" by simp
    have "of_int k - 1 < (of_int wc :: rat) / 200 * 2" unfolding k_def
      by (metis ceiling_correct)
    then have lo: "(of_int k - 1 :: rat) / 2 < of_int wc / 200" by simp
    from b [OF that] have "estimateDuration wc = of_int k / 2" by (simp add: k_def)
    with up lo show ?thesis by blast
  qed
  have d: "estimateDuration 0 = 0" by (simp add: estimateDuration_def)
  have e: "estimateDuration 50 = 1 / 2" by (simp add: estimateDuration_pos)
  have f: "estimateDuration 200 = 1" by (simp add: estimateDuration_pos)
  have g: "estimateDuration 201 = 3 / 2" by (simp add: estimateDuration_pos)
  from a b c d e f g show ?thesis by blast
qed

theorem C7_estimateDuration_witness:
  "estimateDuration (- 5) = 0 \<and> estimateDuration 250 = 3 / 2
   \<and> estimateDuration 250 = of_int \<lceil>(of_int 250 :: rat) / 200 * 2\<rceil> / 2"
  using C7_estimateDuration [of "- 5"] C7_estimateDuration [of 250]
  by (simp add: estimateDuration_pos)

subsection \<open>Scene header grammar\<close>

text \<open>
  C1 (as the code has it). For a line that holds only a number pair, digits, a hyphen and
  digits, with any white space around it, \<open>validateSceneHeader\<close> returns
  \<open>valid = false\<close> with exactly one error: it stands at the end of the number and its
  one message says that time, location type and location are missing. The check of the
  text after the number returns at once when that text is empty, so the three separate
  errors of the later checks are not produced for such a line.
\<close>

theorem C1_bare_number_one_error:
  assumes "a \<noteq> []" "\<forall>c\<in>set a. isDigit c" "b \<noteq> []" "\<forall>c\<in>set b. isDigit c"
    and "\<forall>c\<in>set w1. isWhiteSpace c" "\<forall>c\<in>set w2. isWhiteSpace c"
  shows "validateSceneHeader (w1 @ (a @ ch_hyphen # b) @ w2) =
         \<lparr>valid = False,
          errors = [\<lparr>position = length a + 1 + length b, message = MSG_NO_FIELDS\<rparr>]\<rparr>"
  using assms by (rule validate_bare_number)

theorem C1_bare_number_one_error_witness:
  "validateSceneHeader ([0x20] @ ([0x31, 0x32] @ ch_hyphen # [0x37]) @ [0x09]) =
     \<lparr>valid = False, errors = [\<lparr>position = 4, message = MSG_NO_FIELDS\<rparr>]\<rparr>"
  using C1_bare_number_one_error [of "[0x31, 0x32]" "[0x37]" "[0x20]" "[0x09]"]
  by (simp add: isDigit_def isWhiteSpace_def)

text \<open>
  The claim as stated fails at the line \<open>3-2\<close>: the result holds one error, not three.
\<close>

theorem C1_counterexample:
  "validateSceneHeader [0x33, 0x2D, 0x32] =
     \<lparr>valid = False, errors = [\<lparr>position = 3, message = MSG_NO_FIELDS\<rparr>]\<rparr>
   \<and> length (errors (validateSceneHeader [0x33, 0x2D, 0x32])) \<noteq> 3"
proof -
  have "validateSceneHeader ([] @ ([0x33] @ ch_hyphen # [0x32]) @ []) =
     \<lparr>valid = False, errors = [\<lparr>position = length [0x33 :: jschar] + 1 + length [0x32 :: jschar],
        message = MSG_NO_FIELDS\<rparr>]\<rparr>"
    by (rule validate_bare_number) (simp_all add: isDigit_def)
  then show ?thesis by simp
qed

text \<open>
  C2 (as the code has it). Formatting a header as
  \<open>episode-scene time locationType location\<close> and parsing the line gives the header
  back when the time is not empty and holds no white space, the location type is one of
  the two tokens, and the location is not empty, holds no line terminator and neither
  begins nor ends with white space (episode and scene being integers that a number
  holds exactly).
\<close>

theorem C2_header_round_trip:
  assumes "1 \<le> e" "e < 2 ^ 53" "1 \<le> s" "s < 2 ^ 53"
    and tm: "tm \<noteq> []" "\<forall>c\<in>set tm. \<not> isWhiteSpace c"
    and lt: "locType = [ch_interior] \<or> locType = [ch_exterior]"
    and loc: "loc \<noteq> []" "\<forall>c\<in>set loc. \<not> isLineTerminator c"
      "\<not> isWhiteSpace (hd loc)" "\<not> isWhiteSpace (last loc)"
  shows "parseSceneHeader
           (generateSceneHeaderTemplate \<lparr>episode = e, scene = s\<rparr> tm locType loc) =
         Some \<lparr>episode = e, scene = s, time = tm, locationType = locType, location = loc\<rparr>"
proof -
  let ?a = "numToString e" and ?b = "numToString s"
  let ?str = "?a @ ch_hyphen # ?b @ ch_space # tm @ ch_space # locType @ ch_space # loc"
  have str: "generateSceneHeaderTemplate \<lparr>episode = e, scene = s\<rparr> tm locType loc = ?str"
    by (simp add: generateSceneHeaderTemplate_def)
  have "hd ?str = hd ?a" using numToString_nonempty [of e] by (cases ?a) auto
  then have h: "\<not> isWhiteSpace (hd ?str)"
    using numToString_nonempty [of e] numToString_digits [of e]
    by (cases ?a) (auto simp: digit_not_space)
  have l: "\<not> isWhiteSpace (last ?str)" using loc by simp
  have t: "trim ?str = ?str" using h l by (intro trim_id) auto
  have m: "jsMatch SCENE_HEADER_REGEX ?str =
      Some \<lparr>m_index = 0,
            m_end = length ?a + 1 + length ?b + 1 + length tm + 1 + length locType + 1
                      + length loc,
            m_groups = [1 \<mapsto> ?a, 2 \<mapsto> ?b, 3 \<mapsto> tm, 4 \<mapsto> locType, 5 \<mapsto> loc]\<rparr>"
    using numToString_nonempty numToString_digits tm lt loc(1-3)
    by (intro SCENE_HEADER_REGEX_match) auto
  have tl: "trim loc = loc" using loc by (intro trim_id) auto
  show ?thesis
    unfolding str parseSceneHeader_def t
    by (simp add: m group_def parseInt10_numToString tl)
qed

theorem C2_header_round_trip_witness:
  "parseSceneHeader
     (generateSceneHeaderTemplate \<lparr>episode = 1, scene = 2\<rparr> [ch_rain, ch_night]
        [ch_exterior] [0x5BA2, ch_space, 0x5385]) =
   Some \<lparr>episode = 1, scene = 2, time = [ch_rain, ch_night], locationType = [ch_exterior],
         location = [0x5BA2, ch_space, 0x5385]\<rparr>"
  using C2_header_round_trip [of 1 2 "[ch_rain, ch_night]" "[ch_exterior]"
      "[0x5BA2, ch_space, 0x5385]"]
  by (simp add: isWhiteSpace_def isLineTerminator_def)

text \<open>
  The claim as stated, with any string as the time, fails for a time that holds a space:
  the header with episode 1, scene 1, the time \<open>day space night\<close>, the interior token and
  a two-character location formats to a line that does not parse.
\<close>

theorem C2_counterexample:
  "parseSceneHeader
     (generateSceneHeaderTemplate \<lparr>episode = 1, scene = 1\<rparr> [ch_day, ch_space, ch_night]
        [ch_interior] [0x5BA2, 0x5385]) = None"
  by (simp add: generateSceneHeaderTemplate_def numToString.simps parseSceneHeader_def
      SCENE_HEADER_REGEX_def jsMatch_def matchAt_def trim_def isWhiteSpace_def isDigit_def
      isLineTerminator_def)

text \<open>
  C10. The staged validator and the one-shot parser accept the same lines:
  \<open>validateSceneHeader\<close> returns \<open>valid = true\<close> exactly when \<open>parseSceneHeader\<close>
  returns a header.
\<close>

theorem C10_validate_iff_parse:
  "valid (validateSceneHeader str) \<longleftrightarrow> parseSceneHeader str \<noteq> None"
  by (simp only: validate_valid_iff parseSceneHeader_None_iff)

theorem C10_validate_iff_parse_witness:
  "valid (validateSceneHeader
      [0x31, ch_hyphen, 0x31, ch_space, ch_day, ch_space, ch_interior, ch_space, 0x5BA2, 0x5385])
   \<and> \<not> valid (validateSceneHeader [0x31, ch_hyphen, 0x31, ch_space, ch_day])"
proof -
  have "parseSceneHeader
      [0x31, ch_hyphen, 0x31, ch_space, ch_day, ch_space, ch_interior, ch_space, 0x5BA2, 0x5385]
      \<noteq> None"
    by (simp add: parseSceneHeader_def SCENE_HEADER_REGEX_def jsMatch_def matchAt_def trim_def
        isWhiteSpace_def isDigit_def isLineTerminator_def)
  moreover have "parseSceneHeader [0x31, ch_hyphen, 0x31, ch_space, ch_day] = None"
    by (simp add: parseSceneHeader_def SCENE_HEADER_REGEX_def jsMatch_def matchAt_def trim_def
        isWhiteSpace_def isDigit_def isLineTerminator_def)
  ultimately show ?thesis
    using C10_validate_iff_parse
      [of "[0x31, ch_hyphen, 0x31, ch_space, ch_day, ch_space, ch_interior, ch_space, 0x5BA2, 0x5385]"]
      C10_validate_iff_parse [of "[0x31, ch_hyphen, 0x31, ch_space, ch_day]"]
    by simp
qed

subsection \<open>Scene numbering\<close>

text \<open>
  C5 (as the code has it). For an index whose scenes are sorted by line,
  \<open>needsRenumbering\<close> is true exactly when either the cursor is at or after some scene
  and there is a next scene (the first scene with a line after the cursor) in the same
  episode as the insertion number computed by \<open>getNextSceneNumber\<close>, or the cursor lies
  before every scene and the first scene's scene number is 1. With the cursor before
  every scene the next scene is always in the episode of the insertion number, and the
  answer is then decided by the first scene's number alone.
\<close>

theorem C5_needsRenumbering:
  assumes "sorted (map line (scenes this))"
  shows "needsRenumbering this c \<longleftrightarrow>
      ((\<exists>s\<in>set (scenes this). line s \<le> c)
         \<and> (\<exists>n. find (\<lambda>s. c < line s) (scenes this) = Some n
                \<and> episode n = episode (getNextSceneNumber this c)))
      \<or> ((\<forall>s\<in>set (scenes this). c < line s) \<and> scenes this \<noteq> []
           \<and> scene (hd (scenes this)) = 1)"
proof (cases "scenes this")
  case Nil
  then show ?thesis by (simp add: needsRenumbering_def)
next
  case (Cons f rest)
  obtain pv nx where pn: "findPrevNext c (scenes this) None = (pv, nx)"
    by (cases "findPrevNext c (scenes this) None")
  have nx: "nx = find (\<lambda>s. c < line s) (scenes this)"
    using findPrevNext_next [of c "scenes this" None] pn by simp
  show ?thesis
  proof (cases "line f \<le> c")
    case True
    from findPrevNext_prev_Some [of c rest f] obtain q where
      "fst (findPrevNext c rest (Some f)) = Some q" ..
    with True Cons pn have pv: "pv = Some q" by simp
    have ex: "\<exists>s\<in>set (scenes this). line s \<le> c" using True Cons by auto
    have nb: "\<not> (\<forall>s\<in>set (scenes this). c < line s)" using True Cons by auto
    have ep: "episode (getNextSceneNumber this c) = episode q"
      using Cons pn pv by (cases nx) (simp_all add: getNextSceneNumber_def)
    have "needsRenumbering this c \<longleftrightarrow> (\<exists>n. nx = Some n \<and> episode q = episode n)"
      using Cons pn pv by (cases nx) (simp_all add: needsRenumbering_def)
    with ex nb ep nx show ?thesis by auto
  next
    case False
    then have after: "\<forall>s\<in>set (scenes this). c < line s"
      using sorted_all_after [of f rest c] assms Cons by simp
    from False Cons pn have pv: "pv = None" and nx': "nx = Some f" by simp_all
    have "needsRenumbering this c \<longleftrightarrow> scene f = 1"
      using Cons pn pv nx' by (simp add: needsRenumbering_def)
    moreover have "\<not> (\<exists>s\<in>set (scenes this). line s \<le> c)" using after by auto
    ultimately show ?thesis using after Cons by auto
  qed
qed

theorem C5_needsRenumbering_witness:
  "needsRenumbering (indexOf [sceneAt 1 1 0, sceneAt 1 2 10]) 5
   \<and> \<not> needsRenumbering (indexOf [sceneAt 1 3 0, sceneAt 2 1 10]) 5
   \<and> needsRenumbering (indexOf [sceneAt 2 1 4]) 0"
  using C5_needsRenumbering [of "indexOf [sceneAt 1 1 0, sceneAt 1 2 10]" 5]
    C5_needsRenumbering [of "indexOf [sceneAt 1 3 0, sceneAt 2 1 10]" 5]
    C5_needsRenumbering [of "indexOf [sceneAt 2 1 4]" 0]
  by (simp add: indexOf_def sceneAt_def getNextSceneNumber_def)

text \<open>
  The claim as stated fails for the index with the one scene 1-2 at line 5 and the cursor
  at line 0: the next scene exists and is in the episode of the insertion number 1-1,
  and \<open>needsRenumbering\<close> is false.
\<close>

theorem C5_counterexample:
  "\<not> needsRenumbering (indexOf [sceneAt 1 2 5]) 0
   \<and> find (\<lambda>s. 0 < line s) (scenes (indexOf [sceneAt 1 2 5])) = Some (sceneAt 1 2 5)
   \<and> episode (sceneAt 1 2 5) = episode (getNextSceneNumber (indexOf [sceneAt 1 2 5]) 0)"
  by (simp add: needsRenumbering_def getNextSceneNumber_def indexOf_def sceneAt_def)



subsection \<open>Document indexer\<close>

text \<open>
  C3. Two calls of \<open>parseDocument\<close> on the same text, with the same previous index or
  with none, give the same scenes and the same fingerprint whatever the service's state
  and the clock; without a previous index the fingerprint is the hash of the text. When
  a previous index is supplied whose \<open>contentHash\<close> equals the hash of the text,
  \<open>parseDocument\<close> hands that index back as it is, time stamp included, and leaves the
  service's own index alone; so a second call that is given the first call's result
  returns that result. (The model has values, not references: "the same object" is read
  as "the same index in every field".)
\<close>

theorem C3_memoized_indexing:
  "scenes (fst (parseDocument this1 content prev now1)) =
     scenes (fst (parseDocument this2 content prev now2))
   \<and> contentHash (fst (parseDocument this1 content prev now1)) =
     contentHash (fst (parseDocument this2 content prev now2))
   \<and> contentHash (fst (parseDocument this1 content prev now1)) = calculateHash content
   \<and> (contentHash previousIndex = calculateHash content \<longrightarrow>
        parseDocument this content (Some previousIndex) now = (previousIndex, this))
   \<and> parseDocument this2 content (Some (fst (parseDocument this1 content None now1))) now2 =
       (fst (parseDocument this1 content None now1), this2)"
proof -
  have h: "contentHash (fst (parseDocument t content None n)) = calculateHash content" for t n
    by (simp add: parseDocument_fresh Let_def)
  have s: "contentHash p = calculateHash content \<Longrightarrow>
      parseDocument t content (Some p) n = (p, t)" for p t n
    by (simp add: parseDocument_def Let_def)
  have f: "fst (parseDocument t content (Some p) n) = fst (parseDocument t content None n)"
    if "contentHash p \<noteq> calculateHash content" for p t n
    using that by (simp add: parseDocument_def Let_def)
  have e: "scenes (fst (parseDocument this1 content None now1)) =
     scenes (fst (parseDocument this2 content None now2))"
    by (simp add: parseDocument_fresh Let_def)
  have g: "scenes (fst (parseDocument this1 content prev now1)) =
     scenes (fst (parseDocument this2 content prev now2))
   \<and> contentHash (fst (parseDocument this1 content prev now1)) =
     contentHash (fst (parseDocument this2 content prev now2))
   \<and> contentHash (fst (parseDocument this1 content prev now1)) = calculateHash content"
  proof (cases prev)
    case None
    with h e show ?thesis by simp
  next
    case (Some p)
    show ?thesis
    proof (cases "contentHash p = calculateHash content")
      case True
      with Some s show ?thesis by simp
    next
      case False
      with Some f h e show ?thesis by simp
    qed
  qed
  have c4: "contentHash previousIndex = calculateHash content \<longrightarrow>
        parseDocument this content (Some previousIndex) now = (previousIndex, this)"
    using s by blast
  have c5: "parseDocument this2 content (Some (fst (parseDocument this1 content None now1))) now2 =
       (fst (parseDocument this1 content None now1), this2)"
    by (rule s) (rule h)
  from g c4 c5 show ?thesis by blast
qed

theorem C3_memoized_indexing_witness:
  "parseDocument (indexOf []) []
     (Some \<lparr>scenes = [sceneAt 1 1 0], episodeCount = 1, lastUpdated = 7, contentHash = [0x30]\<rparr>) 9
   = (\<lparr>scenes = [sceneAt 1 1 0], episodeCount = 1, lastUpdated = 7, contentHash = [0x30]\<rparr>,
      indexOf [])"
  using C3_memoized_indexing [of "indexOf []" "[]" None 0 "indexOf []" 0
      "\<lparr>scenes = [sceneAt 1 1 0], episodeCount = 1, lastUpdated = 7, contentHash = [0x30]\<rparr>"
      "indexOf []" 9]
  by (simp add: calculateHash_def int32ToString16_def hexDigits.simps hexDigit_def)

text \<open>
  C4 (as the code has it). The scenes of the index that \<open>parseDocument\<close> builds are
  sorted by line, strictly ascending, and their (episode, scene) pairs are, in order, the
  pairs of the document's header lines: one record for every header line. The pairs are
  therefore pairwise unique exactly when no two header lines carry the same pair; the
  indexer does not merge or reject a repeated number.
\<close>

theorem C4_index_sorted:
  "sorted_wrt (<) (map line (scenes (fst (parseDocument this content None now))))
   \<and> map (\<lambda>s. (episode s, scene s)) (scenes (fst (parseDocument this content None now))) =
       headerNumbers (splitOn ch_newline content)"
  using parseDocument_lines_sorted parseDocument_numbers by blast

text \<open>
  The claim as stated fails for the two-line document whose lines are both headers
  numbered 1-1: the index holds the pair (1, 1) twice.
\<close>

theorem C4_counterexample:
  "\<not> distinct (map (\<lambda>s. (episode s, scene s))
       (scenes (fst (parseDocument (indexOf [])
          [0x31, ch_hyphen, 0x31, ch_space, ch_day, ch_space, ch_interior, ch_space, 0x5BA2,
           ch_newline,
           0x31, ch_hyphen, 0x31, ch_space, ch_night, ch_space, ch_exterior, ch_space, 0x8857]
          None 0))))"
proof -
  have "headerNumbers (splitOn ch_newline
          [0x31, ch_hyphen, 0x31, ch_space, ch_day, ch_space, ch_interior, ch_space, 0x5BA2,
           ch_newline,
           0x31, ch_hyphen, 0x31, ch_space, ch_night, ch_space, ch_exterior, ch_space, 0x8857])
        = [(1, 1), (1, 1)]"
    by (simp add: headerNumbers_def parseSceneHeader_def SCENE_HEADER_REGEX_def jsMatch_def
        matchAt_def trim_def isWhiteSpace_def isDigit_def isLineTerminator_def group_def
        parseInt10_def digitValue_def)
  then show ?thesis by (simp only: parseDocument_numbers) simp
qed

subsection \<open>Content word counting\<close>

text \<open>
  C8. A character-list line, the person character and a space followed by names (a text
  without a newline that holds a character other than white space), adds nothing to
  \<open>countContentWords\<close>, whatever the names. The emotion dialogue line of the example,
  a two-character name, a one-character emotion in full-width parentheses, the full-width
  colon and a four-character text, counts 4: the pattern's third group is the text, and
  a line that reaches the dialogue rule counts the characters of that group only, white
  space left out.
\<close>

theorem C8_content_words:
  "(ch_newline \<notin> set names \<and> (\<exists>c\<in>set names. \<not> isWhiteSpace c)
      \<longrightarrow> countContentWords ([ch_person, ch_space] @ names) = 0)
   \<and> countContentWords [0x5F20, 0x4E09, ch_lparen, 0x7B11, ch_rparen, ch_colon, 0x4F60, 0x597D, 0x4E16, 0x754C] = 4
   \<and> (\<exists>m. jsMatch DIALOGUE_REGEX [0x5F20, 0x4E09, ch_lparen, 0x7B11, ch_rparen, ch_colon, 0x4F60, 0x597D, 0x4E16, 0x754C] = Some m
          \<and> group m 1 = [0x5F20, 0x4E09] \<and> group m 2 = [0x7B11]
          \<and> group m 3 = [0x4F60, 0x597D, 0x4E16, 0x754C])
   \<and> (trim str \<noteq> [] \<and> \<not> jsTest SCENE_NUMBER_REGEX (trim str)
        \<and> \<not> startsWith (trim str) [ch_person, ch_space]
        \<and> trim str \<noteq> [ch_lbracket, 0x95EA, 0x56DE, ch_rbracket]
        \<and> trim str \<noteq> [ch_lbracket, 0x95EA, 0x56DE, 0x7ED3, 0x675F, ch_rbracket]
        \<and> \<not> startsWith (trim str) [ch_lbracket, 0x6807, 0x7B7E, ch_colon]
        \<and> trim str \<noteq> [ch_hyphen, ch_hyphen, ch_hyphen]
        \<and> \<not> startsWith (trim str) [ch_hash]
        \<and> jsMatch DIALOGUE_REGEX (trim str) = Some dm
      \<longrightarrow> contentWordsOfLine str = length (removeWhiteSpace (group dm 3)))"
proof (intro conjI impI)
  assume "ch_newline \<notin> set names \<and> (\<exists>c\<in>set names. \<not> isWhiteSpace c)"
  then show "countContentWords ([ch_person, ch_space] @ names) = 0"
    using cast_line_no_words [of names] by blast
next
  show "countContentWords [0x5F20, 0x4E09, ch_lparen, 0x7B11, ch_rparen, ch_colon, 0x4F60, 0x597D, 0x4E16, 0x754C] = 4"
    by (rule dialogue_example_words)
next
  show "\<exists>m. jsMatch DIALOGUE_REGEX [0x5F20, 0x4E09, ch_lparen, 0x7B11, ch_rparen, ch_colon, 0x4F60, 0x597D, 0x4E16, 0x754C] = Some m
          \<and> group m 1 = [0x5F20, 0x4E09] \<and> group m 2 = [0x7B11]
          \<and> group m 3 = [0x4F60, 0x597D, 0x4E16, 0x754C]"
    by (simp add: dialogue_example_match group_def)
next
  assume "trim str \<noteq> [] \<and> \<not> jsTest SCENE_NUMBER_REGEX (trim str)
        \<and> \<not> startsWith (trim str) [ch_person, ch_space]
        \<and> trim str \<noteq> [ch_lbracket, 0x95EA, 0x56DE, ch_rbracket]
        \<and> trim str \<noteq> [ch_lbracket, 0x95EA, 0x56DE, 0x7ED3, 0x675F, ch_rbracket]
        \<and> \<not> startsWith (trim str) [ch_lbracket, 0x6807, 0x7B7E, ch_colon]
        \<and> trim str \<noteq> [ch_hyphen, ch_hyphen, ch_hyphen]
        \<and> \<not> startsWith (trim str) [ch_hash]
        \<and> jsMatch DIALOGUE_REGEX (trim str) = Some dm"
  then show "contentWordsOfLine str = length (removeWhiteSpace (group dm 3))"
    using dialogue_line_words [of str dm] by blast
qed

theorem C8_content_words_witness:
  "countContentWords
     ([ch_person, ch_space] @ [0x5F20, 0x4E09, ch_space, 0x674E, 0x56DB]) = 0
   \<and> contentWordsOfLine [0x5F20, 0x4E09, ch_lparen, 0x7B11, ch_rparen, ch_colon, 0x4F60, 0x597D, 0x4E16, 0x754C] = 4"
proof -
  have t: "trim [0x5F20, 0x4E09, ch_lparen, 0x7B11, ch_rparen, ch_colon, 0x4F60, 0x597D, 0x4E16, 0x754C] = [0x5F20, 0x4E09, ch_lparen, 0x7B11, ch_rparen, ch_colon, 0x4F60, 0x597D, 0x4E16, 0x754C]"
    by (simp add: trim_def isWhiteSpace_def)
  have n: "\<not> jsTest SCENE_NUMBER_REGEX [0x5F20, 0x4E09, ch_lparen, 0x7B11, ch_rparen, ch_colon, 0x4F60, 0x597D, 0x4E16, 0x754C]"
    by (simp add: jsTest_def jsMatch_def SCENE_NUMBER_REGEX_def matchAt_def isDigit_def)
  show ?thesis
    using C8_content_words [of "[0x5F20, 0x4E09, ch_space, 0x674E, 0x56DB]"
        "[0x5F20, 0x4E09, ch_lparen, 0x7B11, ch_rparen, ch_colon, 0x4F60, 0x597D, 0x4E16, 0x754C]"
        "\<lparr>m_index = 0, m_end = 10,
          m_groups = [1 \<mapsto> [0x5F20, 0x4E09], 2 \<mapsto> [0x7B11],
                      3 \<mapsto> [0x4F60, 0x597D, 0x4E16, 0x754C]]\<rparr>"]
      dialogue_example_match n
    by (simp add: t isWhiteSpace_def startsWith_def group_def removeWhiteSpace_def)
qed

subsection \<open>Line classifiers\<close>

text \<open>
  C6. The two exporters classify with different rule orders. The Word exporter tests
  the rules in the order empty, flashback markers, episode header, scene header,
  character list, action marker, emotion dialogue, plain colon dialogue, other. The PDF
  exporter tests the two dialogue patterns before the action marker and the episode
  header last, so an action line that holds a full-width colon, and an episode header
  that holds one, are both classified as plain dialogue there. Both classify the line
  with a parenthesized emotion as emotion dialogue.
\<close>

theorem C6_classifier_order:
  "PDF_getLineType [ch_triangle, ch_space, 0x5F20, 0x4E09, ch_colon, 0x4F60, 0x597D]
     = SimpleDialogue
   \<and> Word_getLineType [ch_triangle, ch_space, 0x5F20, 0x4E09, ch_colon, 0x4F60, 0x597D] = Action
   \<and> PDF_getLineType [ch_hash, ch_space, ch_ordinal, 0x31, ch_episode, ch_colon, 0x5F00, 0x7AEF]
     = SimpleDialogue
   \<and> Word_getLineType [ch_hash, ch_space, ch_ordinal, 0x31, ch_episode, ch_colon, 0x5F00, 0x7AEF]
     = EpisodeHeader
   \<and> PDF_getLineType [0x5F20, 0x4E09, ch_lparen, 0x7B11, ch_rparen, ch_colon, 0x4F60, 0x597D]
     = Dialogue
   \<and> Word_getLineType [0x5F20, 0x4E09, ch_lparen, 0x7B11, ch_rparen, ch_colon, 0x4F60, 0x597D]
     = Dialogue"
  by (simp add: PDF_getLineType_def Word_getLineType_def trim_def isWhiteSpace_def
      FLASHBACK_START_def FLASHBACK_END_def jsTest_def jsMatch_def matchAt_def isDigit_def
      isLineTerminator_def SCENE_HEADER_REGEX_def CHARACTER_LIST_REGEX_def DIALOGUE_REGEX_def
      SIMPLE_DIALOGUE_REGEX_def ACTION_REGEX_def PDF_EPISODE_REGEX_def WORD_EPISODE_REGEX_def
      WORD_CAST_REGEX_def)

end
